theory Spec2Isabelle
  imports Complex_Main "HOL-Library.Word" "HOL-Library.Multiset"
begin

section \<open>JavaScript numbers\<close>

text \<open>
  A JavaScript number is an IEEE 754 binary64 value.  The model keeps the finite values as
  the rationals they denote and has the two infinities and NaN as separate values.  Every
  arithmetic operation computes the exact rational result and rounds it with \<open>fl64\<close>
  (round to nearest, ties to even, 53 bits of precision, gradual underflow below
  \<open>2^-1022\<close>, overflow to an infinity from \<open>2^1024 - 2^970\<close> on), as the hardware does.
  The one thing left out is the sign of zero: \<open>Fin 0\<close> stands for \<open>+0\<close>, which is the
  only zero the functions below can divide by (\<open>total - i\<close> of two integers).
\<close>

datatype jsnum = Fin rat | PInf | NInf | NaN

function bitlen :: "int \<Rightarrow> int" where
  "bitlen n = (if n \<le> 0 then 0 else 1 + bitlen (n div 2))"
  by pat_completeness auto
termination
  by (relation "measure nat") auto

declare bitlen.simps [simp del]

definition pow2 :: "int \<Rightarrow> rat" where
  "pow2 e = (if 0 \<le> e then 2 ^ nat e else 1 / 2 ^ nat (- e))"

definition ilog2 :: "rat \<Rightarrow> int" where
  \<comment> \<open>for \<open>x > 0\<close>: the exponent \<open>e\<close> with \<open>2^e \<le> x < 2^(e+1)\<close>\<close>
  "ilog2 x = (let (a, b) = quotient_of x;
                  e0 = bitlen a - bitlen b
              in if pow2 e0 \<le> x then e0 else e0 - 1)"

definition rne :: "rat \<Rightarrow> int" where
  \<comment> \<open>the nearest integer, a tie going to the even one\<close>
  "rne q = (let f = \<lfloor>q\<rfloor>; d = q - of_int f
            in if d < 1 / 2 then f else if 1 / 2 < d then f + 1
               else if even f then f else f + 1)"

definition ulp :: "rat \<Rightarrow> rat" where
  \<comment> \<open>the spacing of the binary64 numbers around \<open>x\<close>: \<open>2^(e-52)\<close> in the binade
      \<open>2^e \<le> \<bar>x\<bar> < 2^(e+1)\<close>, and \<open>2^-1074\<close> in the subnormal range\<close>
  "ulp x = pow2 (max (ilog2 \<bar>x\<bar>) (- 1022) - 52)"

definition rnd64 :: "rat \<Rightarrow> rat" where
  \<comment> \<open>the nearest multiple of the spacing, ties to the even multiple\<close>
  "rnd64 x = of_int (rne (x / ulp x)) * ulp x"

definition fl64 :: "rat \<Rightarrow> jsnum" where
  "fl64 x = (let y = rnd64 x in
     if 2 ^ 1024 \<le> \<bar>y\<bar> then (if 0 < x then PInf else NInf) else Fin y)"

definition inf_of_sign :: "rat \<Rightarrow> jsnum" where
  "inf_of_sign s = (if 0 < s then PInf else if s < 0 then NInf else NaN)"

fun sgnj :: "jsnum \<Rightarrow> rat" where
  "sgnj (Fin a) = sgn a"
| "sgnj PInf = 1"
| "sgnj NInf = - 1"
| "sgnj NaN = 0"

fun jmul :: "jsnum \<Rightarrow> jsnum \<Rightarrow> jsnum" where
  "jmul (Fin a) (Fin b) = fl64 (a * b)"
| "jmul NaN y = NaN"
| "jmul x NaN = NaN"
| "jmul x y = inf_of_sign (sgnj x * sgnj y)"

fun jdiv :: "jsnum \<Rightarrow> jsnum \<Rightarrow> jsnum" where
  "jdiv (Fin a) (Fin b) = (if b = 0 then inf_of_sign a else fl64 (a / b))"
| "jdiv NaN y = NaN"
| "jdiv x NaN = NaN"
| "jdiv (Fin a) y = Fin 0"
| "jdiv x (Fin b) = inf_of_sign (sgnj x * (if b < 0 then - 1 else 1))"
| "jdiv x y = NaN"

fun jadd :: "jsnum \<Rightarrow> jsnum \<Rightarrow> jsnum" where
  "jadd (Fin a) (Fin b) = fl64 (a + b)"
| "jadd NaN y = NaN"
| "jadd x NaN = NaN"
| "jadd PInf NInf = NaN"
| "jadd NInf PInf = NaN"
| "jadd (Fin a) y = y"
| "jadd x y = x"

fun jneg :: "jsnum \<Rightarrow> jsnum" where
  "jneg (Fin a) = Fin (- a)"
| "jneg PInf = NInf"
| "jneg NInf = PInf"
| "jneg NaN = NaN"

definition jsub :: "jsnum \<Rightarrow> jsnum \<Rightarrow> jsnum" where
  "jsub x y = jadd x (jneg y)"

fun jle :: "jsnum \<Rightarrow> jsnum \<Rightarrow> bool" where
  "jle NaN y = False"
| "jle x NaN = False"
| "jle NInf y = True"
| "jle x PInf = True"
| "jle (Fin a) (Fin b) = (a \<le> b)"
| "jle x y = False"

fun jlt :: "jsnum \<Rightarrow> jsnum \<Rightarrow> bool" where
  "jlt NaN y = False"
| "jlt x NaN = False"
| "jlt (Fin a) (Fin b) = (a < b)"
| "jlt PInf y = False"
| "jlt x NInf = False"
| "jlt x y = True"

definition jmax :: "jsnum \<Rightarrow> jsnum \<Rightarrow> jsnum" where
  \<comment> \<open>\<open>Math.max\<close>: NaN when an argument is NaN\<close>
  "jmax x y = (if x = NaN \<or> y = NaN then NaN else if jle x y then y else x)"

definition jmin :: "jsnum \<Rightarrow> jsnum \<Rightarrow> jsnum" where
  \<comment> \<open>\<open>Math.min\<close>: NaN when an argument is NaN\<close>
  "jmin x y = (if x = NaN \<or> y = NaN then NaN else if jle x y then x else y)"

fun isFinite :: "jsnum \<Rightarrow> bool" where
  "isFinite (Fin a) = True"
| "isFinite x = False"


section \<open>Bytes, hexadecimal text and the WebCrypto wrappers\<close>

text \<open>
  Strings are lists of 8-bit characters.  All the text the program builds itself
  (hexadecimal digits, decimal digits, colons) is ASCII; \<open>enc.encode\<close> then gives one
  byte per character.  A client seed typed with other characters stands here for its
  UTF-8 bytes.
\<close>

type_synonym byte = "8 word"

definition enc_encode :: "string \<Rightarrow> byte list" where
  "enc_encode s = map (\<lambda>c. of_nat (of_char c)) s"

definition hexdigit :: "nat \<Rightarrow> char" where
  \<comment> \<open>\<open>toString(16)\<close> of one digit; used below \<open>16\<close> only\<close>
  "hexdigit d = ''0123456789abcdef'' ! d"

definition bufToHex :: "byte list \<Rightarrow> string" where
  "bufToHex b = concat (map (\<lambda>x. [hexdigit (unat x div 16), hexdigit (unat x mod 16)]) b)"

definition hexval :: "char \<Rightarrow> nat option" where
  "hexval c = (let k = (of_char c :: nat) in
     if 48 \<le> k \<and> k \<le> 57 then Some (k - 48)
     else if 97 \<le> k \<and> k \<le> 102 then Some (k - 87)
     else if 65 \<le> k \<and> k \<le> 70 then Some (k - 55)
     else None)"

definition is_space :: "char \<Rightarrow> bool" where
  \<comment> \<open>the ASCII white space that \<open>parseInt\<close> and \<open>trim\<close> skip\<close>
  "is_space c = (let k = (of_char c :: nat) in (9 \<le> k \<and> k \<le> 13) \<or> k = 32)"

definition parseInt16 :: "char \<Rightarrow> char \<Rightarrow> int option" where
  \<comment> \<open>\<open>parseInt(s, 16)\<close> of a two-character string; \<open>None\<close> is NaN\<close>
  "parseInt16 c1 c2 =
     (case hexval c1 of
        Some d1 \<Rightarrow> (case hexval c2 of
                      Some d2 \<Rightarrow> Some (int (16 * d1 + d2))
                    | None \<Rightarrow> Some (int d1))
      | None \<Rightarrow>
          if c1 = CHR ''+'' \<or> is_space c1 then map_option int (hexval c2)
          else if c1 = CHR ''-'' then map_option (\<lambda>d. - int d) (hexval c2)
          else None)"

fun hexToBytes :: "string \<Rightarrow> byte list" where
  \<comment> \<open>a \<open>Uint8Array\<close> of \<open>hex.length / 2\<close> elements (the fraction dropped); storing
      NaN gives 0, storing an integer wraps it modulo 256\<close>
  "hexToBytes (c1 # c2 # cs) =
     (case parseInt16 c1 c2 of None \<Rightarrow> 0 | Some v \<Rightarrow> of_int v) # hexToBytes cs"
| "hexToBytes cs = []"

definition sha256Hex :: "(byte list \<Rightarrow> byte list) \<Rightarrow> string \<Rightarrow> string" where
  \<comment> \<open>the first argument is the platform's SHA-256, \<open>crypto.subtle.digest\<close>\<close>
  "sha256Hex SHA input = bufToHex (SHA (enc_encode input))"

definition hmacSHA256Hex ::
    "(byte list \<Rightarrow> byte list \<Rightarrow> byte list) \<Rightarrow> string \<Rightarrow> string \<Rightarrow> string" where
  \<comment> \<open>the first argument is the platform's HMAC-SHA-256 (key, then message),
      \<open>crypto.subtle.importKey\<close> and \<open>crypto.subtle.sign\<close>\<close>
  "hmacSHA256Hex HMAC keyRaw msg = bufToHex (HMAC (enc_encode keyRaw) (enc_encode msg))"

section \<open>The keystream\<close>

fun showNat :: "nat \<Rightarrow> string" where
  \<comment> \<open>a non-negative integer in a template literal: its decimal digits\<close>
  "showNat n = (if n < 10 then [hexdigit n] else showNat (n div 10) @ [hexdigit (n mod 10)])"

declare showNat.simps [simp del]

datatype error = RangeError

record keystream_obj =
  ks_serverSeed :: string
  ks_clientSeed :: string
  ks_nonce :: nat
  counter :: nat
  buffer :: "byte list"

definition Keystream :: "string \<Rightarrow> string \<Rightarrow> nat \<Rightarrow> keystream_obj" where
  "Keystream s c n =
     \<lparr>ks_serverSeed = s, ks_clientSeed = c, ks_nonce = n, counter = 0, buffer = []\<rparr>"

definition refill ::
    "(byte list \<Rightarrow> byte list \<Rightarrow> byte list) \<Rightarrow> keystream_obj \<Rightarrow> keystream_obj" where
  "refill HMAC ks =
     (let msg = ks_clientSeed ks @ '':'' @ showNat (ks_nonce ks) @ '':'' @ showNat (counter ks);
          hex = hmacSHA256Hex HMAC (ks_serverSeed ks) msg
      in ks\<lparr>counter := counter ks + 1, buffer := hexToBytes hex\<rparr>)"

definition getUint32 :: "byte list \<Rightarrow> nat" where
  \<comment> \<open>\<open>getUint32(0, false)\<close>: the first four bytes, big-endian; called on four bytes
      or more\<close>
  "getUint32 b = ((unat (b ! 0) * 256 + unat (b ! 1)) * 256 + unat (b ! 2)) * 256 + unat (b ! 3)"

definition nextFloat ::
    "(byte list \<Rightarrow> byte list \<Rightarrow> byte list) \<Rightarrow> keystream_obj \<Rightarrow> error + (rat \<times> keystream_obj)" where
  \<comment> \<open>a \<open>DataView\<close> over fewer than four bytes makes \<open>getUint32\<close> throw a RangeError.
      The quotient is returned as the rational it is: \<open>val\<close> is below \<open>2^32\<close>, so the
      binary64 division by \<open>2^32\<close> is exact (lemma \<open>nextFloat_division_exact\<close>).\<close>
  "nextFloat HMAC ks =
     (let ks1 = (if length (buffer ks) < 4 then refill HMAC ks else ks) in
      if length (buffer ks1) < 4 then Inl RangeError
      else let val = getUint32 (buffer ks1)
           in Inr (of_nat val / 4294967296, ks1\<lparr>buffer := drop 4 (buffer ks1)\<rparr>))"

section \<open>The shuffle\<close>

text \<open>
  A JavaScript array of numbers: a read beyond the end gives \<open>undefined\<close> (\<open>None\<close>), a
  write beyond the end extends the array, leaving holes that also read as \<open>undefined\<close>.
\<close>

type_synonym jsarray = "nat option list"

definition arr_get :: "jsarray \<Rightarrow> nat \<Rightarrow> nat option" where
  "arr_get arr j = (if j < length arr then arr ! j else None)"

definition arr_set :: "jsarray \<Rightarrow> nat \<Rightarrow> nat option \<Rightarrow> jsarray" where
  "arr_set arr j v =
     (if j < length arr then arr[j := v] else arr @ replicate (j - length arr) None @ [v])"

definition swap :: "jsarray \<Rightarrow> nat \<Rightarrow> nat \<Rightarrow> jsarray" where
  \<comment> \<open>\<open>[arr[i], arr[j]] = [arr[j], arr[i]]\<close>: both reads, then the write to \<open>i\<close>, then
      the write to \<open>j\<close>\<close>
  "swap arr i j = (let a = arr_get arr j; b = arr_get arr i in arr_set (arr_set arr i a) j b)"

fun shuffle_loop ::
    "(byte list \<Rightarrow> byte list \<Rightarrow> byte list) \<Rightarrow> nat \<Rightarrow> jsarray \<Rightarrow> keystream_obj
       \<Rightarrow> error + (jsarray \<times> keystream_obj)" where
  \<comment> \<open>the loop \<open>for (; i > 0; i--)\<close>.  \<open>r\<close> is never negative, so the floor is a
      natural number; \<open>r * (i + 1)\<close> is computed exactly, as binary64 does while
      \<open>i + 1 \<le> 2^21\<close> (lemma \<open>shuffle_product_exact\<close>).\<close>
  "shuffle_loop HMAC 0 arr ks = Inr (arr, ks)"
| "shuffle_loop HMAC (Suc k) arr ks =
     (case nextFloat HMAC ks of
        Inl e \<Rightarrow> Inl e
      | Inr (r, ks') \<Rightarrow>
          let i = Suc k;
              j = nat \<lfloor>r * of_nat (i + 1)\<rfloor>
          in shuffle_loop HMAC k (swap arr i j) ks')"

definition shuffleDeterministic ::
    "(byte list \<Rightarrow> byte list \<Rightarrow> byte list) \<Rightarrow> nat \<Rightarrow> keystream_obj
       \<Rightarrow> error + (jsarray \<times> keystream_obj)" where
  \<comment> \<open>returns the array and the keystream object as the calls left it; for \<open>n = 0\<close> the
      loop starts at \<open>-1\<close> and does not run\<close>
  "shuffleDeterministic HMAC n ks = shuffle_loop HMAC (n - 1) (map Some [0..<n]) ks"

section \<open>Probability and multiplier\<close>

function probLoop :: "int \<Rightarrow> int \<Rightarrow> int \<Rightarrow> int \<Rightarrow> jsnum \<Rightarrow> jsnum" where
  \<comment> \<open>the loop \<open>for (let i = 0; i < r; i++)\<close> from its state \<open>(i, prob)\<close>; the integer
      subtractions are exact\<close>
  "probLoop tot mines r i prob =
     (if i < r then
        (let safeLeft = (tot - mines) - i;
             tilesLeft = tot - i
         in if safeLeft \<le> 0 then Fin 0
            else probLoop tot mines r (i + 1)
                   (jmul prob (jdiv (Fin (of_int safeLeft)) (Fin (of_int tilesLeft)))))
      else prob)"
  by pat_completeness auto
termination
  by (relation "measure (\<lambda>(tot, mines, r, i, prob). nat (r - i))") auto

declare probLoop.simps [simp del]

definition probabilitySafePicks :: "int \<Rightarrow> int \<Rightarrow> int \<Rightarrow> jsnum" where
  \<comment> \<open>the third parameter \<open>tot\<close> is the source's \<open>total\<close>, which every call leaves at its default 25\<close>
  "probabilitySafePicks r mines tot =
     (if r \<le> 0 then Fin 1 else probLoop tot mines r 0 (Fin 1))"

definition payoutMultiplier :: "int \<Rightarrow> int \<Rightarrow> jsnum \<Rightarrow> jsnum" where
  \<comment> \<open>\<open>0.99\<close> is the binary64 number nearest to 99/100\<close>
  "payoutMultiplier r mines houseEdgePct =
     (if r \<le> 0 then Fin 1
      else let prob = probabilitySafePicks r mines 25 in
        if jle prob (Fin 0) then PInf
        else let edge = jmax (Fin 0) (jmin (fl64 (99 / 100)) (jdiv houseEdgePct (Fin 100)))
             in jdiv (jsub (Fin 1) edge) prob)"


section \<open>Game state and handlers\<close>

text \<open>
  The program's global variables and the parts of the page its handlers read back: each
  tile's \<open>disabled\<close> flag, the text of the server-seed element (\<open>None\<close> for the dash
  placeholder), the badge.  Tiles are the 25 buttons \<open>resetBoard\<close> creates.  What is only
  written for display (multiplier text, focus, the stored copy of the balance) is left out.
\<close>

datatype tile = Hidden | Safe | Mine

record game =
  balance :: jsnum
  roundActive :: bool
  currentBet :: jsnum
  minesCount :: int
  houseEdgePct :: jsnum
  serverSeed :: "string option"
  serverSeedHash :: "string option"
  clientSeed :: "string option"
  nonce :: nat
  minesSet :: "nat set"
  revealed :: "nat set"
  safeReveals :: nat
  keystream :: "keystream_obj option"
  tileFace :: "nat \<Rightarrow> tile"
  tileDisabled :: "nat set"
  serverSeedEl :: "string option"
  badge :: string

record form =
  betEl :: jsnum
  minesEl :: "int option"
  edgeEl :: jsnum
  clientSeedEl :: string

text \<open>
  The form is read after parsing: \<open>betEl\<close> and \<open>edgeEl\<close> are what \<open>parseFloat\<close> returns,
  \<open>minesEl\<close> what \<open>parseInt\<close> returns when that is an integer (\<open>None\<close> otherwise).
\<close>

definition revealAll :: "game \<Rightarrow> game" where
  "revealAll g =
     g\<lparr>tileFace := (\<lambda>i. if i < 25 then
                             (if i \<in> minesSet g then Mine
                              else if i \<in> revealed g then tileFace g i
                              else Safe)
                           else tileFace g i),
       tileDisabled := tileDisabled g \<union>
                         set (filter (\<lambda>i. i \<in> minesSet g \<or> i \<notin> revealed g) [0..<25])\<rparr>"

definition resetBoard :: "game \<Rightarrow> game" where
  "resetBoard g = g\<lparr>tileFace := (\<lambda>i. Hidden), tileDisabled := {}\<rparr>"

definition showSeed :: "string option \<Rightarrow> string option" where
  \<comment> \<open>\<open>serverSeedEl.textContent = serverSeed\<close>; \<open>null\<close> gives the empty text\<close>
  "showSeed s = (case s of None \<Rightarrow> Some [] | Some t \<Rightarrow> Some t)"

definition onTileClick :: "nat \<Rightarrow> game \<Rightarrow> game" where
  "onTileClick idx g =
     (if \<not> roundActive g then g
      else if idx \<in> revealed g \<or> idx \<in> tileDisabled g then g
      else if idx \<in> minesSet g then
        (revealAll (g\<lparr>tileFace := (tileFace g)(idx := Mine),
                       tileDisabled := insert idx (tileDisabled g),
                       revealed := insert idx (revealed g),
                       roundActive := False\<rparr>))
          \<lparr>badge := ''Busted'', serverSeedEl := showSeed (serverSeed g)\<rparr>
      else
        g\<lparr>tileFace := (tileFace g)(idx := Safe),
          tileDisabled := insert idx (tileDisabled g),
          revealed := insert idx (revealed g),
          safeReveals := safeReveals g + 1\<rparr>)"

definition doCashOut :: "game \<Rightarrow> game" where
  "doCashOut g =
     (if \<not> roundActive g then g
      else if safeReveals g \<le> 0 then g
      else let mult = payoutMultiplier (int (safeReveals g)) (minesCount g) (houseEdgePct g) in
        if \<not> isFinite mult then g
        else let payout = jmul (currentBet g) mult in
          (revealAll (g\<lparr>balance := jadd (balance g) payout,
                         roundActive := False,
                         badge := ''Cashed out''\<rparr>))
            \<lparr>serverSeedEl := showSeed (serverSeed g)\<rparr>)"

definition toFixed2 :: "rat \<Rightarrow> jsnum" where
  \<comment> \<open>\<open>parseFloat(x.toFixed(2))\<close> for a positive \<open>x\<close>: the nearest multiple of 1/100
      (of two, the larger), read back as a number; from \<open>10^21\<close> on the text is the
      number's own\<close>
  "toFixed2 x = (if 10 ^ 21 \<le> x then Fin x else fl64 (of_int \<lfloor>100 * x + 1 / 2\<rfloor> / 100))"

definition clampInputs :: "form \<Rightarrow> game \<Rightarrow> jsnum \<times> game" where
  \<comment> \<open>returns the number the bet field holds afterwards, and the state\<close>
  "clampInputs f g =
     (let bet = (case betEl f of
                   Fin b \<Rightarrow> if b \<le> 0 then toFixed2 1 else toFixed2 b
                 | _ \<Rightarrow> toFixed2 1);
          m0 = (case minesEl f of None \<Rightarrow> 3 | Some k \<Rightarrow> k);
          m = max 1 (min 24 m0);
          e0 = (if isFinite (edgeEl f) then edgeEl f else Fin 3);
          e = jmax (Fin 0) (jmin (Fin 10) e0)
      in (bet, g\<lparr>minesCount := m, houseEdgePct := e\<rparr>))"

definition trim :: "string \<Rightarrow> string" where
  "trim s = rev (dropWhile is_space (rev (dropWhile is_space s)))"

definition randomHex :: "byte list \<Rightarrow> string" where
  \<comment> \<open>the argument is what \<open>crypto.getRandomValues\<close> wrote into the array\<close>
  "randomHex arr = concat (map (\<lambda>b. [hexdigit (unat b div 16), hexdigit (unat b mod 16)]) arr)"

definition mineIndices :: "jsarray \<Rightarrow> int \<Rightarrow> nat set" where
  \<comment> \<open>\<open>new Set(order.slice(0, minesCount))\<close>, as the numbers it can be asked for\<close>
  "mineIndices order m = Option.these (set (take (nat m) order))"

definition startRound ::
    "(byte list \<Rightarrow> byte list \<Rightarrow> byte list) \<Rightarrow> (byte list \<Rightarrow> byte list)
       \<Rightarrow> form \<Rightarrow> byte list \<Rightarrow> byte list \<Rightarrow> game \<Rightarrow> error + game" where
  \<comment> \<open>\<open>rnd16\<close> and \<open>rnd32\<close> are the random bytes of \<open>randomHex(16)\<close> and
      \<open>randomHex(32)\<close>; \<open>Inl\<close> is the exception out of the keystream\<close>
  "startRound HMAC SHA f rnd16 rnd32 g =
     (if roundActive g then Inr g
      else let (bet, g1) = clampInputs f g in
        if jlt (balance g1) bet then Inr g1
        else
          let cs = (if length (trim (clientSeedEl f)) > 0 then trim (clientSeedEl f)
                    else randomHex rnd16);
              ss = randomHex rnd32;
              h = sha256Hex SHA ss;
              n = nonce g1 + 1;
              ks = Keystream ss cs n
          in case shuffleDeterministic HMAC 25 ks of
               Inl e \<Rightarrow> Inl e
             | Inr (order, ks') \<Rightarrow>
                 Inr (resetBoard
                   (g1\<lparr>clientSeed := Some cs, serverSeed := Some ss, serverSeedHash := Some h,
                       nonce := n, serverSeedEl := None, keystream := Some ks',
                       minesSet := mineIndices order (minesCount g1),
                       balance := jsub (balance g1) bet, currentBet := bet,
                       safeReveals := 0, revealed := {}, roundActive := True,
                       badge := ''Live''\<rparr>)))"

definition verifyCommitment :: "(byte list \<Rightarrow> byte list) \<Rightarrow> game \<Rightarrow> bool option" where
  \<comment> \<open>\<open>None\<close>: the handler returns without an answer; \<open>Some ok\<close>: the alert\<close>
  "verifyCommitment SHA g =
     (case (serverSeed g, serverSeedHash g) of
        (Some ss, Some h) \<Rightarrow>
          if ss = [] \<or> h = [] \<or> roundActive g \<or> serverSeedEl g = None then None
          else Some (sha256Hex SHA ss = h)
      | _ \<Rightarrow> None)"

definition nextRound :: "game \<Rightarrow> game" where
  "nextRound g =
     resetBoard (g\<lparr>badge := ''Idle'', serverSeed := None, serverSeedHash := None,
                   serverSeedEl := None, safeReveals := 0, revealed := {}\<rparr>)"

datatype event = Click nat | CashOut

fun handle :: "event \<Rightarrow> game \<Rightarrow> game" where
  "handle (Click idx) g = onTileClick idx g"
| "handle CashOut g = doCashOut g"

definition play :: "event list \<Rightarrow> game \<Rightarrow> game" where
  \<comment> \<open>the handlers run one after the other, in the order of the events\<close>
  "play evs g = foldl (\<lambda>s e. handle e s) g evs"


section \<open>The keystream and shuffle contract, in the specification's words\<close>

text \<open>
  Block number \<open>k\<close> of the stream is the MAC of the message
  \<open>clientSeed:nonce:k\<close> under the key \<open>serverSeed\<close>.  A block has 32 bytes, eight
  floats, so float number \<open>t\<close> (from 0) is made of the four bytes at offset
  \<open>4 * (t mod 8)\<close> of block \<open>t div 8\<close>, read big-endian and divided by \<open>2^32\<close>.
\<close>

definition mac_block ::
    "(byte list \<Rightarrow> byte list \<Rightarrow> byte list) \<Rightarrow> string \<Rightarrow> string \<Rightarrow> nat \<Rightarrow> nat \<Rightarrow> byte list" where
  "mac_block HMAC s c n k =
     HMAC (enc_encode s) (enc_encode (c @ '':'' @ showNat n @ '':'' @ showNat k))"

definition be_u32 :: "byte list \<Rightarrow> nat" where
  "be_u32 bs = foldl (\<lambda>a b. 256 * a + unat b) 0 bs"

definition spec_float ::
    "(byte list \<Rightarrow> byte list \<Rightarrow> byte list) \<Rightarrow> string \<Rightarrow> string \<Rightarrow> nat \<Rightarrow> nat \<Rightarrow> rat" where
  "spec_float HMAC s c n t =
     of_nat (be_u32 (take 4 (drop (4 * (t mod 8)) (mac_block HMAC s c n (t div 8))))) / 2 ^ 32"

definition keystream_after ::
    "(byte list \<Rightarrow> byte list \<Rightarrow> byte list) \<Rightarrow> string \<Rightarrow> string \<Rightarrow> nat \<Rightarrow> nat \<Rightarrow> keystream_obj" where
  \<comment> \<open>the keystream object once \<open>t\<close> floats have been drawn: the blocks requested so
      far and the unread rest of the last one\<close>
  "keystream_after HMAC s c n t =
     \<lparr>ks_serverSeed = s, ks_clientSeed = c, ks_nonce = n,
      counter = (if t mod 8 = 0 then t div 8 else t div 8 + 1),
      buffer = (if t mod 8 = 0 then [] else drop (4 * (t mod 8)) (mac_block HMAC s c n (t div 8)))\<rparr>"

fun fisher_yates_from :: "(nat \<Rightarrow> rat) \<Rightarrow> nat \<Rightarrow> nat \<Rightarrow> nat list \<Rightarrow> nat list" where
  \<comment> \<open>the steps for \<open>i\<close> down to 1, the next float being number \<open>t\<close>\<close>
  "fisher_yates_from f t 0 xs = xs"
| "fisher_yates_from f t (Suc k) xs =
     (let i = Suc k;
          j = nat \<lfloor>f t * of_nat (i + 1)\<rfloor>
      in fisher_yates_from f (Suc t) k (xs[i := xs ! j, j := xs ! i]))"

definition fisher_yates :: "(nat \<Rightarrow> rat) \<Rightarrow> nat \<Rightarrow> nat list" where
  \<comment> \<open>for \<open>i\<close> from \<open>n - 1\<close> down to 1: draw a float \<open>f\<close>, \<open>j = floor (f * (i + 1))\<close>,
      swap the elements at \<open>i\<close> and \<open>j\<close>\<close>
  "fisher_yates f n = fisher_yates_from f 0 (n - 1) [0..<n]"

text \<open>
  The probability contract: the product over \<open>i = 0..r-1\<close> of
  \<open>(25 - mines - i) / (25 - i)\<close>.  \<open>safe_product\<close> multiplies the ratios from left
  to right in binary64, \<open>exact_product\<close> is the rational number itself.  An edge is
  clamped into an interval by \<open>clampTo\<close>.
\<close>

definition ratio :: "int \<Rightarrow> int \<Rightarrow> jsnum" where
  "ratio mines i = jdiv (Fin (of_int (25 - mines - i))) (Fin (of_int (25 - i)))"

definition safe_product :: "int \<Rightarrow> int \<Rightarrow> jsnum" where
  "safe_product r mines = foldl (\<lambda>p i. jmul p (ratio mines i)) (Fin 1) [0..r - 1]"

definition exact_product :: "int \<Rightarrow> int \<Rightarrow> rat" where
  "exact_product r mines = (\<Prod>i\<leftarrow>[0..r - 1]. of_int (25 - mines - i) / of_int (25 - i))"

definition clampTo :: "jsnum \<Rightarrow> jsnum \<Rightarrow> jsnum \<Rightarrow> jsnum" where
  "clampTo lo hi x = (if jlt x lo then lo else if jlt hi x then hi else x)"

definition clamped_edge :: "jsnum \<Rightarrow> jsnum" where
  \<comment> \<open>\<open>houseEdgePct / 100\<close> clamped into \<open>[0, 0.99]\<close>\<close>
  "clamped_edge pct = clampTo (Fin 0) (fl64 (99 / 100)) (jdiv pct (Fin 100))"

definition toy_hmac :: "byte list \<Rightarrow> byte list \<Rightarrow> byte list" where
  \<comment> \<open>a stand-in with 32-byte output, for concrete instances only\<close>
  "toy_hmac k m = replicate 32 (of_nat (length k + length m))"

definition toy_sha :: "byte list \<Rightarrow> byte list" where
  \<comment> \<open>a stand-in with 32-byte output, for concrete instances only\<close>
  "toy_sha m = replicate 32 (of_nat (length m))"

subsection \<open>States used as concrete instances\<close>

definition idle_game :: game where
  \<comment> \<open>the state the script starts in\<close>
  "idle_game =
     \<lparr>balance = Fin 1000, roundActive = False, currentBet = Fin 0, minesCount = 3,
      houseEdgePct = Fin 3, serverSeed = None, serverSeedHash = None, clientSeed = None,
      nonce = 0, minesSet = {}, revealed = {}, safeReveals = 0, keystream = None,
      tileFace = (\<lambda>i. Hidden), tileDisabled = {}, serverSeedEl = None, badge = []\<rparr>"

definition live_game :: game where
  \<comment> \<open>a round in progress: mines at 4, 9 and 17, tile 3 revealed safe\<close>
  "live_game =
     idle_game\<lparr>balance := Fin 990, roundActive := True, currentBet := Fin 10,
       serverSeed := Some ''5eed'', serverSeedHash := Some ''c0de'', clientSeed := Some ''abc'',
       nonce := 1, minesSet := {4, 9, 17}, revealed := {3}, safeReveals := 1,
       tileFace := (\<lambda>i. if i = 3 then Safe else Hidden), tileDisabled := {3},
       badge := ''Live''\<rparr>"

definition demo_form :: form where
  "demo_form = \<lparr>betEl = Fin 10, minesEl = Some 3, edgeEl = Fin 3, clientSeedEl = ''abc''\<rparr>"

section \<open>Verification\<close>

subsection \<open>Binary64 rounding\<close>

lemma pow2_powi: "pow2 e = 2 powi e"
  by (simp add: pow2_def power_int_def field_simps)

lemma pow2_pos [simp]: "0 < pow2 e"
  by (simp add: pow2_powi)

lemma pow2_nz [simp]: "pow2 e \<noteq> 0"
  using pow2_pos [of e] by linarith

lemma pow2_nonneg [simp]: "0 \<le> pow2 e"
  using pow2_pos [of e] by linarith

lemma pow2_add: "pow2 (a + b) = pow2 a * pow2 b"
  by (simp add: pow2_powi power_int_add)

lemma pow2_mono: "a \<le> b \<Longrightarrow> pow2 a \<le> pow2 b"
  by (simp add: pow2_powi power_int_increasing)

lemma pow2_strict_mono: "a < b \<Longrightarrow> pow2 a < pow2 b"
  by (simp add: pow2_powi power_int_strict_increasing)

lemma pow2_nat: "0 \<le> e \<Longrightarrow> pow2 e = 2 ^ nat e"
  by (simp add: pow2_def)

lemma pow2_le_iff: "pow2 a \<le> pow2 b \<longleftrightarrow> a \<le> b"
  by (metis pow2_mono pow2_strict_mono not_le)

lemma pow2_less_iff: "pow2 a < pow2 b \<longleftrightarrow> a < b"
  by (metis pow2_mono pow2_strict_mono not_le)

lemma bitlen_nonneg: "0 \<le> bitlen n"
  by (induction n rule: bitlen.induct) (subst bitlen.simps, auto)

lemma bitlen_pos: "0 < n \<Longrightarrow> 1 \<le> bitlen n"
  using bitlen_nonneg [of "n div 2"] by (subst bitlen.simps) auto

lemma bitlen_bounds: "0 < n \<Longrightarrow> 2 ^ nat (bitlen n - 1) \<le> n \<and> n < 2 ^ nat (bitlen n)"
proof (induction n rule: bitlen.induct)
  case (1 n)
  show ?case
  proof (cases "n = 1")
    case True
    have "bitlen 1 = 1" by code_simp
    with True show ?thesis by simp
  next
    case False
    with 1 have h: "0 < n div 2" by auto
    with 1 have ih: "2 ^ nat (bitlen (n div 2) - 1) \<le> n div 2" "n div 2 < 2 ^ nat (bitlen (n div 2))"
      by auto
    have bl: "bitlen n = 1 + bitlen (n div 2)" using 1(2) by (subst bitlen.simps) simp
    have p: "1 \<le> bitlen (n div 2)" using h by (rule bitlen_pos)
    have e1: "nat (bitlen n - 1) = Suc (nat (bitlen (n div 2) - 1))" using bl p by simp
    have e2: "nat (bitlen n) = Suc (nat (bitlen (n div 2)))" using bl p by simp
    show ?thesis unfolding e1 e2 using ih by auto
  qed
qed


lemma ilog2_bounds:
  assumes "0 < x"
  shows "pow2 (ilog2 x) \<le> x \<and> x < pow2 (ilog2 x + 1)"
proof -
  obtain a b where q: "quotient_of x = (a, b)" by (cases "quotient_of x")
  have b: "0 < b" using q quotient_of_denom_pos by blast
  have x: "x = of_int a / of_int b" using q by (rule quotient_of_div)
  have a: "0 < a" using assms b x by (simp add: zero_less_divide_iff)
  define la lb where "la = bitlen a" and "lb = bitlen b"
  have la1: "1 \<le> la" and lb1: "1 \<le> lb"
    using a b by (simp_all add: la_def lb_def bitlen_pos)
  have ba: "2 ^ nat (la - 1) \<le> a" "a < 2 ^ nat la" and bb: "2 ^ nat (lb - 1) \<le> b" "b < 2 ^ nat lb"
    using bitlen_bounds [OF a] bitlen_bounds [OF b] by (simp_all add: la_def lb_def)
  have ra: "pow2 (la - 1) \<le> of_int a" "of_int a < pow2 la"
  proof -
    have "(of_int (2 ^ nat (la - 1)) :: rat) \<le> of_int a" using ba(1) by (simp only: of_int_le_iff)
    then show "pow2 (la - 1) \<le> of_int a" using la1 by (simp add: pow2_nat)
    have "(of_int a :: rat) < of_int (2 ^ nat la)" using ba(2) by (simp only: of_int_less_iff)
    then show "of_int a < pow2 la" using la1 by (simp add: pow2_nat)
  qed
  have rb: "pow2 (lb - 1) \<le> of_int b" "of_int b < pow2 lb"
  proof -
    have "(of_int (2 ^ nat (lb - 1)) :: rat) \<le> of_int b" using bb(1) by (simp only: of_int_le_iff)
    then show "pow2 (lb - 1) \<le> of_int b" using lb1 by (simp add: pow2_nat)
    have "(of_int b :: rat) < of_int (2 ^ nat lb)" using bb(2) by (simp only: of_int_less_iff)
    then show "of_int b < pow2 lb" using lb1 by (simp add: pow2_nat)
  qed
  have bpos: "(0::rat) < of_int b" using b by simp
  have lo: "pow2 (la - lb - 1) \<le> x"
  proof -
    have "pow2 (la - lb - 1) * of_int b \<le> pow2 (la - lb - 1) * pow2 lb"
      using rb(2) by (simp add: mult_left_mono less_imp_le)
    also have "\<dots> = pow2 (la - 1)" by (simp add: pow2_add [symmetric])
    also have "\<dots> \<le> of_int a" by (rule ra(1))
    finally show ?thesis using bpos by (simp add: x pos_le_divide_eq)
  qed
  have hi: "x < pow2 (la - lb + 1)"
  proof -
    have "of_int a < pow2 la" by (rule ra(2))
    also have "\<dots> = pow2 (la - lb + 1) * pow2 (lb - 1)" by (simp add: pow2_add [symmetric])
    also have "\<dots> \<le> pow2 (la - lb + 1) * of_int b"
      using rb(1) by (simp add: mult_left_mono less_imp_le)
    finally show ?thesis using bpos by (simp add: x pos_divide_less_eq)
  qed
  have il: "ilog2 x = (if pow2 (la - lb) \<le> x then la - lb else la - lb - 1)"
    by (simp add: ilog2_def q la_def lb_def)
  show ?thesis
    using lo hi by (auto simp: il not_le)
qed

lemma ilog2_unique:
  assumes "pow2 e \<le> x" and "x < pow2 (e + 1)"
  shows "ilog2 x = e"
proof -
  have "0 < x" using assms(1) pow2_pos [of e] by linarith
  then have b: "pow2 (ilog2 x) \<le> x" "x < pow2 (ilog2 x + 1)"
    using ilog2_bounds by blast+
  have "pow2 e < pow2 (ilog2 x + 1)" using assms(1) b(2) by linarith
  then have 1: "e < ilog2 x + 1" by (simp add: pow2_less_iff)
  have "pow2 (ilog2 x) < pow2 (e + 1)" using assms(2) b(1) by linarith
  then have 2: "ilog2 x < e + 1" by (simp add: pow2_less_iff)
  from 1 2 show ?thesis by simp
qed


lemma rne_of_int [simp]: "rne (of_int k) = k"
  by (simp add: rne_def)

lemma rne_floor_le: "\<lfloor>q\<rfloor> \<le> rne q"
  by (simp add: rne_def Let_def)

lemma rne_le_floor: "rne q \<le> \<lfloor>q\<rfloor> + 1"
  by (simp add: rne_def Let_def)

lemma rne_mono:
  assumes "q \<le> q'"
  shows "rne q \<le> rne q'"
proof (cases "\<lfloor>q\<rfloor> = \<lfloor>q'\<rfloor>")
  case True
  then have "q - of_int \<lfloor>q\<rfloor> \<le> q' - of_int \<lfloor>q'\<rfloor>" using assms by simp
  then show ?thesis using True by (auto simp: rne_def Let_def)
next
  case False
  then have "\<lfloor>q\<rfloor> < \<lfloor>q'\<rfloor>" using floor_mono [OF assms] by linarith
  then have "\<lfloor>q\<rfloor> + 1 \<le> \<lfloor>q'\<rfloor>" by simp
  then show ?thesis using rne_le_floor [of q] rne_floor_le [of q'] by linarith
qed

lemma rne_neg: "rne (- q) = - rne q"
proof (cases "q = of_int \<lfloor>q\<rfloor>")
  case True
  then obtain k where "q = of_int k" ..
  then have "- q = of_int (- k)" by simp
  then show ?thesis using \<open>q = of_int k\<close> by (metis rne_of_int)
next
  case False
  then have lt: "of_int \<lfloor>q\<rfloor> < q" using of_int_floor_le [of q] by linarith
  have up: "q < of_int \<lfloor>q\<rfloor> + 1" by linarith
  have "\<lfloor>- q\<rfloor> = - \<lfloor>q\<rfloor> - 1"
  proof (rule floor_unique)
    show "of_int (- \<lfloor>q\<rfloor> - 1) \<le> - q" using up by simp
    show "- q < of_int (- \<lfloor>q\<rfloor> - 1) + 1" using lt by simp
  qed
  then show ?thesis using lt up by (auto simp: rne_def Let_def)
qed

lemma rne_ge: "of_int k \<le> q \<Longrightarrow> k \<le> rne q"
  using rne_mono [of "of_int k" q] by simp

lemma rne_le: "q \<le> of_int k \<Longrightarrow> rne q \<le> k"
  using rne_mono [of q "of_int k"] by simp


lemma ulp_pos [simp]: "0 < ulp x"
  by (simp add: ulp_def)

lemma ulp_nonneg [simp]: "0 \<le> ulp x"
  by (simp add: ulp_def)

lemma ulp_nz [simp]: "ulp x \<noteq> 0"
  by (simp add: ulp_def)

lemma ulp_neg [simp]: "ulp (- x) = ulp x"
  by (simp add: ulp_def)

lemma rnd64_neg: "rnd64 (- x) = - rnd64 x"
  by (simp add: rnd64_def rne_neg)

lemma rnd64_0 [simp]: "rnd64 0 = 0"
  using rne_of_int [of 0] by (simp add: rnd64_def)

lemma pow2_53: "pow2 (e + 1) = 9007199254740992 * pow2 (e - 52)"
proof -
  have "e + 1 = 53 + (e - 52)" by simp
  then have "pow2 (e + 1) = pow2 53 * pow2 (e - 52)" by (simp only: pow2_add)
  then show ?thesis by (simp add: pow2_def)
qed

lemma pow2_52: "pow2 e = 4503599627370496 * pow2 (e - 52)"
proof -
  have "e = 52 + (e - 52)" by simp
  then have "pow2 e = pow2 52 * pow2 (e - 52)" by (metis pow2_add)
  then show ?thesis by (simp add: pow2_def)
qed

lemma rnd64_upper:
  assumes "0 < x"
  shows "rnd64 x \<le> pow2 (max (ilog2 x) (- 1022) + 1)"
proof -
  let ?E = "max (ilog2 x) (- 1022)"
  let ?u = "pow2 (?E - 52)"
  have u: "ulp x = ?u" using assms by (simp add: ulp_def)
  have "x < pow2 (ilog2 x + 1)" using ilog2_bounds [OF assms] by simp
  also have "\<dots> \<le> pow2 (?E + 1)" by (rule pow2_mono) simp
  also have "\<dots> = 9007199254740992 * ?u" by (rule pow2_53)
  finally have "x / ?u \<le> of_int 9007199254740992" by (simp add: pos_divide_le_eq)
  then have "rne (x / ?u) \<le> 9007199254740992" by (rule rne_le)
  then have "(of_int (rne (x / ?u)) :: rat) \<le> of_int 9007199254740992" by (simp only: of_int_le_iff)
  then have "of_int (rne (x / ?u)) * ?u \<le> 9007199254740992 * ?u"
    by (simp add: mult_right_mono)
  then show ?thesis by (simp add: rnd64_def u pow2_53 [symmetric])
qed

lemma ilog2_ge:
  assumes "pow2 e \<le> x"
  shows "e \<le> ilog2 x"
proof -
  have "0 < x" using assms pow2_pos [of e] by linarith
  then have "x < pow2 (ilog2 x + 1)" using ilog2_bounds by blast
  then have "pow2 e < pow2 (ilog2 x + 1)" using assms by linarith
  then show ?thesis by (simp add: pow2_less_iff)
qed

lemma rnd64_lower:
  assumes "pow2 e \<le> x" and "- 1022 \<le> e"
  shows "pow2 e \<le> rnd64 x"
proof -
  have pos: "0 < x" using assms(1) pow2_pos [of e] by linarith
  let ?L = "ilog2 x"
  let ?u = "pow2 (?L - 52)"
  have L: "e \<le> ?L" using assms(1) by (rule ilog2_ge)
  then have "max ?L (- 1022) = ?L" using assms(2) by simp
  then have u: "ulp x = ?u" using pos by (simp add: ulp_def)
  have "4503599627370496 * ?u = pow2 ?L" by (rule pow2_52 [symmetric])
  also have "\<dots> \<le> x" using ilog2_bounds [OF pos] by simp
  finally have "of_int 4503599627370496 \<le> x / ?u" by (simp add: pos_le_divide_eq)
  then have "4503599627370496 \<le> rne (x / ?u)" by (rule rne_ge)
  then have "(of_int 4503599627370496 :: rat) \<le> of_int (rne (x / ?u))" by (simp only: of_int_le_iff)
  then have "4503599627370496 * ?u \<le> of_int (rne (x / ?u)) * ?u"
    by (simp add: mult_right_mono)
  then have "pow2 ?L \<le> rnd64 x" by (simp add: rnd64_def u pow2_52 [symmetric])
  moreover have "pow2 e \<le> pow2 ?L" using L by (rule pow2_mono)
  ultimately show ?thesis by linarith
qed

lemma rnd64_mono_pos:
  assumes "0 < x" and "x \<le> y"
  shows "rnd64 x \<le> rnd64 y"
proof -
  have ypos: "0 < y" using assms by linarith
  let ?Ex = "max (ilog2 x) (- 1022)" and ?Ey = "max (ilog2 y) (- 1022)"
  have "pow2 (ilog2 x) \<le> y" using ilog2_bounds [OF assms(1)] assms(2) by linarith
  then have L: "ilog2 x \<le> ilog2 y" by (rule ilog2_ge)
  show ?thesis
  proof (cases "?Ex = ?Ey")
    case True
    then have u: "ulp y = ulp x" using assms(1) ypos by (simp add: ulp_def)
    have "x / ulp x \<le> y / ulp x" using assms(2) by (simp add: divide_right_mono)
    then have "rne (x / ulp x) \<le> rne (y / ulp x)" by (rule rne_mono)
    then have "(of_int (rne (x / ulp x)) :: rat) \<le> of_int (rne (y / ulp x))"
      by (simp only: of_int_le_iff)
    then show ?thesis by (simp add: rnd64_def u mult_right_mono)
  next
    case False
    with L have lt: "?Ex < ?Ey" by (simp add: max_def split: if_splits)
    then have Ey: "?Ey = ilog2 y" and big: "- 1022 \<le> ilog2 y" by (simp_all add: max_def split: if_splits)
    have "rnd64 x \<le> pow2 (?Ex + 1)" by (rule rnd64_upper [OF assms(1)])
    also have "\<dots> \<le> pow2 (ilog2 y)" using lt Ey by (intro pow2_mono) linarith
    also have "\<dots> \<le> rnd64 y"
      using ilog2_bounds [OF ypos] big by (intro rnd64_lower) simp_all
    finally show ?thesis .
  qed
qed

lemma rnd64_nonneg:
  assumes "0 \<le> x"
  shows "0 \<le> rnd64 x"
proof -
  have "of_int 0 \<le> x / ulp x" using assms by (simp add: zero_le_divide_iff)
  then have "0 \<le> rne (x / ulp x)" by (rule rne_ge)
  then show ?thesis by (simp add: rnd64_def)
qed

lemma rnd64_nonpos:
  assumes "x \<le> 0"
  shows "rnd64 x \<le> 0"
  using rnd64_nonneg [of "- x"] assms by (simp add: rnd64_neg)

lemma rnd64_mono:
  assumes "x \<le> y"
  shows "rnd64 x \<le> rnd64 y"
proof -
  consider "0 < x" | "x \<le> 0" "0 \<le> y" | "y < 0" by linarith
  then show ?thesis
  proof cases
    case 1
    then show ?thesis using assms by (rule rnd64_mono_pos)
  next
    case 2
    then show ?thesis using rnd64_nonneg [of y] rnd64_nonpos [of x] by linarith
  next
    case 3
    then have "rnd64 (- y) \<le> rnd64 (- x)" using assms by (intro rnd64_mono_pos) simp_all
    then show ?thesis by (simp add: rnd64_neg)
  qed
qed

lemma rnd64_fixed:
  assumes "x = of_int k * pow2 e" and "\<bar>k\<bar> < 9007199254740992" and "- 1074 \<le> e"
  shows "rnd64 x = x"
proof (cases "k = 0")
  case True
  then show ?thesis using assms(1) by simp
next
  case False
  then have apos: "0 < \<bar>x\<bar>" using assms(1) by simp
  let ?E = "max (ilog2 \<bar>x\<bar>) (- 1022)"
  have "\<bar>x\<bar> = of_int \<bar>k\<bar> * pow2 e" using assms(1) by (simp add: abs_mult)
  also have "\<dots> < of_int 9007199254740992 * pow2 e"
    using assms(2) by (intro mult_strict_right_mono) (simp_all only: of_int_less_iff pow2_pos)
  also have "\<dots> = pow2 (e + 53)" using pow2_53 [of "e + 52"] by (simp add: add.commute)
  finally have "pow2 (ilog2 \<bar>x\<bar>) < pow2 (e + 53)" using ilog2_bounds [OF apos] by linarith
  then have "ilog2 \<bar>x\<bar> < e + 53" by (simp add: pow2_less_iff)
  then have d: "0 \<le> e - (?E - 52)" using assms(3) by simp
  define u where "u = ulp x"
  define c where "c = (2::int) ^ nat (e - (?E - 52))"
  have unz: "u \<noteq> 0" by (simp add: u_def)
  have "e = (e - (?E - 52)) + (?E - 52)" by simp
  then have "pow2 e = pow2 (e - (?E - 52)) * pow2 (?E - 52)" by (metis pow2_add)
  also have "\<dots> = of_int c * u" using d by (simp add: pow2_nat ulp_def u_def c_def)
  finally have pe: "pow2 e = of_int c * u" .
  have xe: "x = of_int (k * c) * u" by (simp add: assms(1) pe)
  have "x / u = of_int (k * c)" using unz by (subst xe) simp
  then have r: "rne (x / u) = k * c" by (simp only: rne_of_int)
  have "rnd64 x = of_int (rne (x / u)) * u" by (simp add: rnd64_def u_def)
  also have "\<dots> = of_int (k * c) * u" by (simp only: r)
  also have "\<dots> = x" by (rule xe [symmetric])
  finally show ?thesis .
qed


lemma fl64_not_NaN [simp]: "fl64 x \<noteq> NaN"
  by (simp add: fl64_def Let_def)

lemma fl64_cases:
  obtains (fin) "fl64 x = Fin (rnd64 x)" "\<bar>rnd64 x\<bar> < 2 ^ 1024"
    | (pinf) "fl64 x = PInf" "2 ^ 1024 \<le> rnd64 x"
    | (ninf) "fl64 x = NInf" "rnd64 x \<le> - (2 ^ 1024)"
proof (cases "2 ^ 1024 \<le> \<bar>rnd64 x\<bar>")
  case False
  then show ?thesis using fin by (simp add: fl64_def Let_def)
next
  case big: True
  show ?thesis
  proof (cases "0 < x")
    case True
    then have "0 \<le> rnd64 x" by (simp add: rnd64_nonneg)
    then show ?thesis using big True pinf by (simp add: fl64_def Let_def)
  next
    case False
    then have "rnd64 x \<le> 0" by (simp add: rnd64_nonpos)
    then show ?thesis using big False ninf by (simp add: fl64_def Let_def)
  qed
qed

lemma fl64_mono:
  assumes "x \<le> y"
  shows "jle (fl64 x) (fl64 y)"
proof -
  have m: "rnd64 x \<le> rnd64 y" using assms by (rule rnd64_mono)
  show ?thesis
  proof (cases x rule: fl64_cases)
    case fin
    show ?thesis
    proof (cases y rule: fl64_cases)
      case fin
      then show ?thesis using \<open>fl64 x = Fin (rnd64 x)\<close> m by simp
    next
      case pinf
      then show ?thesis using \<open>fl64 x = Fin (rnd64 x)\<close> by simp
    next
      case ninf
      then show ?thesis using \<open>\<bar>rnd64 x\<bar> < 2 ^ 1024\<close> m by simp
    qed
  next
    case pinf
    then have "2 ^ 1024 \<le> rnd64 y" using m by linarith
    then have "fl64 y = PInf"
      by (cases y rule: fl64_cases) simp_all
    then show ?thesis using pinf by simp
  next
    case ninf
    then show ?thesis by (cases y rule: fl64_cases) simp_all
  qed
qed

lemma fl64_fixed:
  assumes "x = of_int k * pow2 e" and "\<bar>k\<bar> < 9007199254740992" and "- 1074 \<le> e"
    and "\<bar>x\<bar> < 2 ^ 1024"
  shows "fl64 x = Fin x"
  using rnd64_fixed [OF assms(1-3)] assms(4) by (simp add: fl64_def Let_def)

lemma rne_abs_le:
  assumes "\<bar>q\<bar> \<le> of_int k"
  shows "\<bar>rne q\<bar> \<le> k"
proof -
  have "q \<le> of_int k" using assms by simp
  then have 1: "rne q \<le> k" by (rule rne_le)
  have "of_int (- k) \<le> q" using assms by simp
  then have 2: "- k \<le> rne q" by (rule rne_ge)
  from 1 2 show ?thesis by simp
qed

lemma ulp_abs [simp]: "ulp \<bar>x\<bar> = ulp x"
  by (simp add: ulp_def)

lemma rnd64_abs_bound: "\<bar>rne (x / ulp x)\<bar> \<le> 9007199254740992"
proof (cases "x = 0")
  case True
  then show ?thesis using rne_of_int [of 0] by simp
next
  case False
  then have pos: "0 < \<bar>x\<bar>" by simp
  let ?E = "max (ilog2 \<bar>x\<bar>) (- 1022)"
  have u: "ulp x = pow2 (?E - 52)" by (simp add: ulp_def)
  have "\<bar>x\<bar> < pow2 (ilog2 \<bar>x\<bar> + 1)" using ilog2_bounds [OF pos] by simp
  also have "\<dots> \<le> pow2 (?E + 1)" by (rule pow2_mono) simp
  also have "\<dots> = 9007199254740992 * ulp x" unfolding u by (rule pow2_53)
  finally have "\<bar>x\<bar> / ulp x \<le> of_int 9007199254740992" by (simp add: pos_divide_le_eq)
  then have "\<bar>x / ulp x\<bar> \<le> of_int 9007199254740992" by simp
  then show ?thesis by (rule rne_abs_le)
qed

lemma rnd64_idem: "rnd64 (rnd64 x) = rnd64 x"
proof -
  define m where "m = rne (x / ulp x)"
  define e where "e = max (ilog2 \<bar>x\<bar>) (- 1022) - 52"
  have r: "rnd64 x = of_int m * pow2 e" by (simp add: rnd64_def m_def e_def ulp_def)
  have e: "- 1074 \<le> e" by (simp add: e_def)
  have b: "\<bar>m\<bar> \<le> 9007199254740992" unfolding m_def by (rule rnd64_abs_bound)
  show ?thesis
  proof (cases "\<bar>m\<bar> < 9007199254740992")
    case True
    show ?thesis by (rule rnd64_fixed [OF r True e])
  next
    case False
    with b have "\<bar>m\<bar> = 9007199254740992" by simp
    then consider "m = 9007199254740992" | "m = - 9007199254740992" by linarith
    then have "rnd64 x = of_int (m div 2) * pow2 (e + 1)"
    proof cases
      case 1
      have "pow2 (e + 1) = pow2 1 * pow2 e" by (simp add: pow2_add [symmetric] add.commute)
      then show ?thesis using 1 by (simp add: r pow2_def)
    next
      case 2
      have "pow2 (e + 1) = pow2 1 * pow2 e" by (simp add: pow2_add [symmetric] add.commute)
      then show ?thesis using 2 by (simp add: r pow2_def)
    qed
    moreover have "\<bar>m div 2\<bar> < 9007199254740992" using \<open>\<bar>m\<bar> = 9007199254740992\<close> by linarith
    moreover have "- 1074 \<le> e + 1" using e by simp
    ultimately show ?thesis by (rule rnd64_fixed)
  qed
qed

lemma fl64_idem:
  assumes "fl64 x = Fin y"
  shows "fl64 y = Fin y"
proof -
  have "y = rnd64 x \<and> \<bar>rnd64 x\<bar> < 2 ^ 1024"
    using assms by (cases x rule: fl64_cases) simp_all
  then show ?thesis using rnd64_idem [of x] by (simp add: fl64_def Let_def)
qed

lemma fl64_between:
  assumes "fl64 a = Fin a" and "fl64 b = Fin b" and "a \<le> x" and "x \<le> b"
  obtains y where "fl64 x = Fin y" and "a \<le> y" and "y \<le> b" and "fl64 y = Fin y"
proof -
  have 1: "jle (Fin a) (fl64 x)" using fl64_mono [OF assms(3)] assms(1) by simp
  have 2: "jle (fl64 x) (Fin b)" using fl64_mono [OF assms(4)] assms(2) by simp
  show ?thesis
  proof (cases "fl64 x")
    case (Fin y)
    then show ?thesis using 1 2 that fl64_idem [OF Fin] by simp
  qed (use 1 2 in simp_all)
qed

lemma fl64_pow2: "- 1074 \<le> e \<Longrightarrow> e < 1024 \<Longrightarrow> fl64 (pow2 e) = Fin (pow2 e)"
proof (rule fl64_fixed [where k = 1 and e = e])
  assume "e < 1024"
  then have "pow2 e < pow2 1024" by (rule pow2_strict_mono)
  then show "\<bar>pow2 e\<bar> < 2 ^ 1024" by (simp add: pow2_def)
qed simp_all

lemma fl64_of_int: "\<bar>k\<bar> < 9007199254740992 \<Longrightarrow> fl64 (of_int k) = Fin (of_int k)"
proof (rule fl64_fixed [where k = k and e = 0])
  assume "\<bar>k\<bar> < 9007199254740992"
  then have "\<bar>k\<bar> < 2 ^ 1024" by simp
  then have "(of_int \<bar>k\<bar> :: rat) < of_int (2 ^ 1024)" by (simp only: of_int_less_iff)
  then show "\<bar>rat_of_int k\<bar> < 2 ^ 1024" by simp
qed (simp_all add: pow2_def)

lemma fl64_0 [simp]: "fl64 0 = Fin 0"
  using fl64_of_int [of 0] by simp

lemma fl64_1 [simp]: "fl64 1 = Fin 1"
  using fl64_of_int [of 1] by simp

subsection \<open>Rejected calls\<close>

lemma onTileClick_inactive: "\<not> roundActive g \<Longrightarrow> onTileClick idx g = g"
  by (simp add: onTileClick_def)

lemma doCashOut_inactive: "\<not> roundActive g \<Longrightarrow> doCashOut g = g"
  by (simp add: doCashOut_def)

lemma handle_inactive: "\<not> roundActive g \<Longrightarrow> handle e g = g"
  by (cases e) (simp_all add: onTileClick_inactive doCashOut_inactive)

lemma play_inactive: "\<not> roundActive g \<Longrightarrow> play evs g = g"
  by (induction evs) (simp_all add: play_def handle_inactive)

lemma revealAll_fields [simp]:
  "roundActive (revealAll g) = roundActive g"
  "balance (revealAll g) = balance g"
  "safeReveals (revealAll g) = safeReveals g"
  "revealed (revealAll g) = revealed g"
  "minesSet (revealAll g) = minesSet g"
  "serverSeed (revealAll g) = serverSeed g"
  "serverSeedHash (revealAll g) = serverSeedHash g"
  "badge (revealAll g) = badge g"
  "serverSeedEl (revealAll g) = serverSeedEl g"
  by (simp_all add: revealAll_def)

lemma revealAll_mine: "i < 25 \<Longrightarrow> i \<in> minesSet g \<Longrightarrow> tileFace (revealAll g) i = Mine"
  by (simp add: revealAll_def)

text \<open>
  Claim C9.  A click, during a round, on a tile that holds a mine (and is not yet revealed
  or disabled) ends the round: the tile shows the mine, the badge reads Busted, the round
  is no longer active, the server seed is shown, and the balance and the count of safe
  reveals are what they were.  From then on every sequence of clicks and cash-outs leaves
  the whole state as it is.  In any state, a cash-out with no safe reveal leaves the state
  as it is too.
\<close>

theorem mine_hit_busts_and_later_calls_are_rejected:
  assumes "roundActive g" and "idx \<notin> revealed g" and "idx \<notin> tileDisabled g"
    and "idx \<in> minesSet g" and "idx < 25"
  shows "\<not> roundActive (onTileClick idx g)
       \<and> badge (onTileClick idx g) = ''Busted''
       \<and> tileFace (onTileClick idx g) idx = Mine
       \<and> serverSeedEl (onTileClick idx g) = showSeed (serverSeed g)
       \<and> balance (onTileClick idx g) = balance g
       \<and> safeReveals (onTileClick idx g) = safeReveals g
       \<and> (\<forall>j. onTileClick j (onTileClick idx g) = onTileClick idx g)
       \<and> doCashOut (onTileClick idx g) = onTileClick idx g
       \<and> (\<forall>evs. play evs (onTileClick idx g) = onTileClick idx g)
       \<and> (\<forall>h. safeReveals h = 0 \<longrightarrow> doCashOut h = h)"
proof -
  let ?g' = "onTileClick idx g"
  have eq: "?g' = (revealAll (g\<lparr>tileFace := (tileFace g)(idx := Mine),
                       tileDisabled := insert idx (tileDisabled g),
                       revealed := insert idx (revealed g),
                       roundActive := False\<rparr>))
          \<lparr>badge := ''Busted'', serverSeedEl := showSeed (serverSeed g)\<rparr>"
    using assms by (simp add: onTileClick_def)
  have inactive: "\<not> roundActive ?g'"
    by (simp add: eq)
  have face: "tileFace ?g' idx = Mine"
    using assms by (simp add: eq revealAll_mine)
  have zero: "\<forall>h. safeReveals h = 0 \<longrightarrow> doCashOut h = h"
    by (simp add: doCashOut_def)
  show ?thesis
    using inactive face zero
    by (simp add: onTileClick_inactive doCashOut_inactive play_inactive) (simp add: eq)
qed

theorem mine_hit_busts_witness:
  "roundActive live_game \<and> 9 \<notin> revealed live_game \<and> 9 \<notin> tileDisabled live_game
     \<and> 9 \<in> minesSet live_game
     \<and> \<not> roundActive (onTileClick 9 live_game)
     \<and> badge (onTileClick 9 live_game) = ''Busted''
     \<and> balance (onTileClick 9 live_game) = Fin 990
     \<and> play [Click 3, CashOut, Click 5] (onTileClick 9 live_game) = onTileClick 9 live_game
     \<and> safeReveals idle_game = 0 \<and> doCashOut idle_game = idle_game"
  using mine_hit_busts_and_later_calls_are_rejected [of live_game 9]
  by (simp add: live_game_def idle_game_def)

text \<open>
  Claim C10.  During a round, a click on a tile that is already revealed changes nothing:
  the state after the handler is the state before it, so the revealed set, the count of
  safe reveals, the active flag and the balance are the same, however often the click is
  repeated, and the multiplier computed from the count is the same as well.
\<close>

theorem click_on_revealed_tile_is_noop:
  assumes "roundActive g" and "idx \<in> revealed g"
  shows "onTileClick idx g = g
       \<and> (\<forall>n. (onTileClick idx ^^ n) g = g)
       \<and> (\<forall>n. payoutMultiplier (int (safeReveals ((onTileClick idx ^^ n) g)))
                  (minesCount g) (houseEdgePct g)
               = payoutMultiplier (int (safeReveals g)) (minesCount g) (houseEdgePct g))"
proof -
  have one: "onTileClick idx g = g"
    using assms by (simp add: onTileClick_def)
  have many: "(onTileClick idx ^^ n) g = g" for n
    by (induction n) (simp_all add: one)
  show ?thesis
    by (simp add: one many)
qed

theorem click_on_revealed_tile_witness:
  "roundActive live_game \<and> 3 \<in> revealed live_game
     \<and> onTileClick 3 live_game = live_game
     \<and> safeReveals ((onTileClick 3 ^^ 5) live_game) = 1"
proof -
  have h: "roundActive live_game \<and> 3 \<in> revealed live_game"
    by (simp add: live_game_def idle_game_def)
  have s: "safeReveals live_game = 1"
    by (simp add: live_game_def idle_game_def)
  from h s click_on_revealed_tile_is_noop [of live_game 3] show ?thesis
    by simp
qed


subsection \<open>Hexadecimal text and the keystream\<close>

lemma hexval_hexdigit_all: "\<forall>d \<in> set [0..<16]. hexval (hexdigit d) = Some d"
  by code_simp

lemma hexval_hexdigit: "d < 16 \<Longrightarrow> hexval (hexdigit d) = Some d"
  using hexval_hexdigit_all by simp

lemma parseInt16_hexdigits:
  "a < 16 \<Longrightarrow> b < 16 \<Longrightarrow> parseInt16 (hexdigit a) (hexdigit b) = Some (int (16 * a + b))"
  by (simp add: parseInt16_def hexval_hexdigit)

lemma hexToBytes_bufToHex: "hexToBytes (bufToHex b) = b"
proof (induction b)
  case Nil
  then show ?case by (simp add: bufToHex_def)
next
  case (Cons x xs)
  have lt: "unat x div 16 < 16" "unat x mod 16 < 16"
    using unsigned_less [of x, where 'a = nat] by (simp_all add: less_mult_imp_div_less)
  have "(of_int (int (16 * (unat x div 16) + unat x mod 16)) :: byte) = of_nat (unat x)"
    by (simp only: mult_div_mod_eq of_int_of_nat_eq)
  then have v: "(of_int (int (16 * (unat x div 16) + unat x mod 16)) :: byte) = x" by simp
  have "bufToHex (x # xs) = hexdigit (unat x div 16) # hexdigit (unat x mod 16) # bufToHex xs"
    by (simp add: bufToHex_def)
  then show ?case using Cons.IH lt v by (simp add: parseInt16_hexdigits)
qed


lemma getUint32_less: "getUint32 b < 4294967296"
proof -
  have "unat (b ! 0) < 256" "unat (b ! 1) < 256" "unat (b ! 2) < 256" "unat (b ! 3) < 256"
    using unsigned_less [of "b ! 0", where 'a = nat] unsigned_less [of "b ! 1", where 'a = nat]
      unsigned_less [of "b ! 2", where 'a = nat] unsigned_less [of "b ! 3", where 'a = nat]
    by simp_all
  then show ?thesis unfolding getUint32_def by (simp add: algebra_simps)
qed

lemma getUint32_be_u32: "4 \<le> length b \<Longrightarrow> getUint32 b = be_u32 (take 4 b)"
proof -
  assume "4 \<le> length b"
  then have "Suc (Suc (Suc (Suc 0))) \<le> length b" by simp
  then obtain b0 b1 b2 b3 bs where "b = b0 # b1 # b2 # b3 # bs"
    by (auto simp: Suc_le_length_iff)
  then show ?thesis by (simp add: getUint32_def be_u32_def)
qed


lemma refill_eq:
  "refill HMAC ks =
     ks\<lparr>counter := counter ks + 1,
        buffer := mac_block HMAC (ks_serverSeed ks) (ks_clientSeed ks) (ks_nonce ks) (counter ks)\<rparr>"
  by (simp add: refill_def Let_def hmacSHA256Hex_def hexToBytes_bufToHex mac_block_def)

lemma nextFloat_eq:
  "nextFloat HMAC ks =
     (let short = length (buffer ks) < 4;
          b = (if short
               then mac_block HMAC (ks_serverSeed ks) (ks_clientSeed ks) (ks_nonce ks) (counter ks)
               else buffer ks);
          c = (if short then counter ks + 1 else counter ks)
      in if length b < 4 then Inl RangeError
         else Inr (of_nat (be_u32 (take 4 b)) / 2 ^ 32, ks\<lparr>counter := c, buffer := drop 4 b\<rparr>))"
  by (simp add: nextFloat_def refill_eq Let_def getUint32_be_u32)

lemma nextFloat_range:
  assumes "nextFloat HMAC ks = Inr (r, ks')"
  shows "0 \<le> r \<and> r < 1"
proof -
  define b where "b = buffer (if length (buffer ks) < 4 then refill HMAC ks else ks)"
  have "r = of_nat (getUint32 b) / 4294967296"
    using assms by (simp add: nextFloat_def Let_def b_def split: if_splits)
  moreover have "(of_nat (getUint32 b) :: rat) < of_nat 4294967296"
    using getUint32_less [of b] by (simp only: of_nat_less_iff)
  ultimately show ?thesis by simp
qed

lemma nextFloat_after:
  assumes "\<forall>k m. length (HMAC k m) = 32"
  shows "nextFloat HMAC (keystream_after HMAC s c n t)
           = Inr (spec_float HMAC s c n t, keystream_after HMAC s c n (Suc t))"
proof -
  let ?B = "mac_block HMAC s c n (t div 8)"
  have len: "length ?B = 32" using assms by (simp add: mac_block_def)
  have r: "t mod 8 < 8" by simp
  show ?thesis
  proof (cases "t mod 8 = 0")
    case True
    then show ?thesis
      using len
      by (simp add: nextFloat_eq keystream_after_def spec_float_def Let_def mod_Suc div_Suc)
  next
    case False
    show ?thesis
    proof (cases "t mod 8 = 7")
      case True
      then show ?thesis
        using len
        by (simp add: nextFloat_eq keystream_after_def spec_float_def Let_def mod_Suc div_Suc)
    next
      case n7: False
      with False r have "0 < t mod 8" "t mod 8 < 7" by simp_all
      then have l: "\<not> 32 - 4 * (t mod 8) < 4" by simp
      show ?thesis
        using False n7 len l
        by (simp add: nextFloat_eq keystream_after_def spec_float_def Let_def mod_Suc div_Suc
            add.commute)
    qed
  qed
qed

lemma Keystream_after_0: "Keystream s c n = keystream_after HMAC s c n 0"
  by (simp add: Keystream_def keystream_after_def)


lemma nextFloat_succeeds:
  assumes "\<forall>k m. length (HMAC k m) = 32"
  shows "\<exists>r ks'. nextFloat HMAC ks = Inr (r, ks') \<and> 0 \<le> r \<and> r < 1"
proof -
  define b where "b = (if length (buffer ks) < 4
    then mac_block HMAC (ks_serverSeed ks) (ks_clientSeed ks) (ks_nonce ks) (counter ks)
    else buffer ks)"
  have "\<not> length b < 4" using assms by (simp add: b_def mac_block_def)
  then have "nextFloat HMAC ks =
      Inr (of_nat (be_u32 (take 4 b)) / 2 ^ 32,
           ks\<lparr>counter := (if length (buffer ks) < 4 then counter ks + 1 else counter ks),
              buffer := drop 4 b\<rparr>)"
    by (simp add: nextFloat_eq Let_def b_def)
  then show ?thesis using nextFloat_range by blast
qed

lemma spec_float_range:
  assumes "\<forall>k m. length (HMAC k m) = 32"
  shows "0 \<le> spec_float HMAC s c n t \<and> spec_float HMAC s c n t < 1"
  using nextFloat_after [OF assms] nextFloat_range by blast

lemma swap_in_range:
  assumes "i < length xs" and "j < length xs"
  shows "swap (map Some xs) i j = map Some (xs[i := xs ! j, j := xs ! i])"
  using assms by (simp add: swap_def arr_get_def arr_set_def Let_def map_update)

lemma floor_index_le:
  assumes "0 \<le> r" and "r < 1"
  shows "nat \<lfloor>r * of_nat (i + 1)\<rfloor> \<le> i"
proof -
  have "r * of_nat (i + 1) < of_nat (i + 1)"
    using assms(2) by (simp add: mult_less_cancel_right2 del: of_nat_add of_nat_Suc)
  then have "r * of_nat (i + 1) < of_int (int (i + 1))" by simp
  then have "\<lfloor>r * of_nat (i + 1)\<rfloor> < int (i + 1)" by (simp only: floor_less_iff)
  then show ?thesis by simp
qed

lemma mset_swap_list:
  assumes "i < length xs" and "j < length xs"
  shows "mset (xs[i := xs ! j, j := xs ! i]) = mset xs"
  using mset_swap [OF assms(2) assms(1)] by simp

lemma shuffle_loop_perm:
  assumes "\<forall>k m. length (HMAC k m) = 32" and "k < length xs"
  shows "\<exists>ys ks'. shuffle_loop HMAC k (map Some xs) ks = Inr (map Some ys, ks') \<and> mset ys = mset xs"
  using assms(2)
proof (induction k arbitrary: xs ks)
  case 0
  then show ?case by simp
next
  case (Suc k)
  obtain r ks1 where nf: "nextFloat HMAC ks = Inr (r, ks1)" and r: "0 \<le> r" "r < 1"
    using nextFloat_succeeds [OF assms(1)] by blast
  define j where "j = nat \<lfloor>r * of_nat (Suc k + 1)\<rfloor>"
  have j: "j \<le> Suc k" unfolding j_def using r by (rule floor_index_le)
  define xs' where "xs' = xs[Suc k := xs ! j, j := xs ! Suc k]"
  have sw: "swap (map Some xs) (Suc k) j = map Some xs'"
    unfolding xs'_def using Suc.prems j by (intro swap_in_range) simp_all
  have m: "mset xs' = mset xs"
    unfolding xs'_def using Suc.prems j by (intro mset_swap_list) simp_all
  have "k < length xs'" using Suc.prems by (simp add: xs'_def)
  from Suc.IH [OF this, of ks1] obtain ys ks' where
    "shuffle_loop HMAC k (map Some xs') ks1 = Inr (map Some ys, ks')" "mset ys = mset xs'"
    by blast
  then show ?case using nf sw m by (simp add: Let_def j_def)
qed

lemma shuffle_loop_refines:
  assumes "\<forall>k m. length (HMAC k m) = 32" and "k < length xs"
  shows "shuffle_loop HMAC k (map Some xs) (keystream_after HMAC s c n t)
           = Inr (map Some (fisher_yates_from (spec_float HMAC s c n) t k xs),
                  keystream_after HMAC s c n (t + k))"
  using assms(2)
proof (induction k arbitrary: xs t)
  case 0
  then show ?case by simp
next
  case (Suc k)
  let ?f = "spec_float HMAC s c n"
  define j where "j = nat \<lfloor>?f t * of_nat (Suc k + 1)\<rfloor>"
  have j: "j \<le> Suc k"
    unfolding j_def using spec_float_range [OF assms(1)] by (intro floor_index_le) simp_all
  define xs' where "xs' = xs[Suc k := xs ! j, j := xs ! Suc k]"
  have sw: "swap (map Some xs) (Suc k) j = map Some xs'"
    unfolding xs'_def using Suc.prems j by (intro swap_in_range) simp_all
  have "k < length xs'" using Suc.prems by (simp add: xs'_def)
  from Suc.IH [OF this, of "Suc t"] show ?case
    using sw by (simp add: nextFloat_after [OF assms(1)] Let_def j_def xs'_def)
qed

lemma nextFloat_division_exact:
  assumes "v < 4294967296"
  shows "jdiv (Fin (of_nat v)) (Fin 4294967296) = Fin (of_nat v / 4294967296)"
proof -
  have "fl64 (of_nat v / 4294967296) = Fin (of_nat v / 4294967296)"
  proof (rule fl64_fixed [where k = "int v" and e = "- 32"])
    show "(of_nat v / 4294967296 :: rat) = of_int (int v) * pow2 (- 32)" by (simp add: pow2_def)
    show "\<bar>int v\<bar> < 9007199254740992" using assms by simp
    have "(of_nat v :: rat) < of_nat 4294967296" using assms by (simp only: of_nat_less_iff)
    then show "\<bar>of_nat v / 4294967296 :: rat\<bar> < 2 ^ 1024" by simp
  qed simp
  then show ?thesis by simp
qed

lemma shuffle_product_exact:
  assumes "v < 4294967296" and "i < 2097152"
  shows "jmul (Fin (of_nat v / 4294967296)) (Fin (of_nat (i + 1)))
           = Fin (of_nat v / 4294967296 * of_nat (i + 1))"
proof -
  define K where "K = v * (i + 1)"
  have x: "of_nat v / 4294967296 * of_nat (i + 1) = (of_nat K / 4294967296 :: rat)"
    by (simp add: K_def algebra_simps)
  have "K \<le> 4294967295 * 2097152"
    unfolding K_def using assms by (intro mult_mono) simp_all
  then have le: "K < 9007199254740992" by simp
  have "fl64 (of_nat K / 4294967296) = Fin (of_nat K / 4294967296)"
  proof (rule fl64_fixed [where k = "int K" and e = "- 32"])
    show "(of_nat K / 4294967296 :: rat) = of_int (int K) * pow2 (- 32)" by (simp add: pow2_def)
    show "\<bar>int K\<bar> < 9007199254740992" using le by simp
    have "(of_nat K :: rat) < of_nat 9007199254740992" using le by (simp only: of_nat_less_iff)
    then show "\<bar>of_nat K / 4294967296 :: rat\<bar> < 2 ^ 1024" by simp
  qed simp
  then show ?thesis by (simp only: jmul.simps x)
qed

subsection \<open>Starting a round\<close>

lemma shuffleDeterministic_perm:
  assumes "\<forall>k m. length (HMAC k m) = 32" and "0 < n"
  shows "\<exists>p ks'. shuffleDeterministic HMAC n ks = Inr (map Some p, ks') \<and> mset p = mset [0..<n]"
  unfolding shuffleDeterministic_def
  using assms(2) by (intro shuffle_loop_perm [OF assms(1)]) simp

lemma mineIndices_take: "mineIndices (map Some p) m = set (take (nat m) p)"
  by (simp add: mineIndices_def take_map)

lemma mines_of_permutation:
  assumes "mset p = mset [0..<25]" and "1 \<le> m" and "m \<le> 24"
  shows "card (mineIndices (map Some p) m) = nat m \<and> mineIndices (map Some p) m \<subseteq> {0..24}"
proof -
  have d: "distinct p" using assms(1) by (metis distinct_upt mset_eq_imp_distinct_iff)
  have l: "length p = 25" using mset_eq_length [OF assms(1)] by simp
  have s: "set p = {0..<25}" using mset_eq_setD [OF assms(1)] by simp
  have "card (set (take (nat m) p)) = length (take (nat m) p)"
    using d by (intro distinct_card) simp
  then have c: "card (set (take (nat m) p)) = nat m" using l assms(2,3) by simp
  have "set (take (nat m) p) \<subseteq> set p" by (rule set_take_subset)
  then have "set (take (nat m) p) \<subseteq> {0..24}" using s by auto
  then show ?thesis using c by (simp add: mineIndices_take)
qed

lemma clampInputs_fields:
  assumes "clampInputs f g = (bet, g1)"
  shows "1 \<le> minesCount g1" "minesCount g1 \<le> 24" "roundActive g1 = roundActive g"
    "balance g1 = balance g" "nonce g1 = nonce g"
  using assms by (auto simp: clampInputs_def Let_def)

lemma startRound_started:
  assumes "\<not> roundActive g" and "startRound HMAC SHA f a b g = Inr g'" and "roundActive g'"
  obtains ss cs order ks' where
    "serverSeed g' = Some ss" "clientSeed g' = Some cs"
    "serverSeedHash g' = Some (sha256Hex SHA ss)"
    "shuffleDeterministic HMAC 25 (Keystream ss cs (nonce g')) = Inr (order, ks')"
    "minesSet g' = mineIndices order (minesCount g')" "keystream g' = Some ks'"
    "1 \<le> minesCount g'" "minesCount g' \<le> 24" "nonce g' = nonce g + 1"
    "revealed g' = {}" "safeReveals g' = 0" "serverSeedEl g' = None" "tileDisabled g' = {}"
proof -
  obtain bet g1 where c: "clampInputs f g = (bet, g1)" by (cases "clampInputs f g")
  note cf = clampInputs_fields [OF c]
  have nb: "\<not> jlt (balance g1) bet"
    using assms cf(3) by (auto simp: startRound_def c)
  define cs where "cs = (if length (trim (clientSeedEl f)) > 0 then trim (clientSeedEl f)
                    else randomHex a)"
  define ss where "ss = randomHex b"
  obtain order ks' where sh: "shuffleDeterministic HMAC 25 (Keystream ss cs (nonce g1 + 1)) = Inr (order, ks')"
    using assms(1,2) nb
    by (auto simp: startRound_def c Let_def cs_def ss_def split: sum.splits)
  have g': "g' = resetBoard
                   (g1\<lparr>clientSeed := Some cs, serverSeed := Some ss,
                       serverSeedHash := Some (sha256Hex SHA ss),
                       nonce := nonce g1 + 1, serverSeedEl := None, keystream := Some ks',
                       minesSet := mineIndices order (minesCount g1),
                       balance := jsub (balance g1) bet, currentBet := bet,
                       safeReveals := 0, revealed := {}, roundActive := True,
                       badge := ''Live''\<rparr>)"
    using assms(1,2) nb sh
    by (simp add: startRound_def c Let_def cs_def ss_def)
  show ?thesis
    using sh cf by (intro that [of ss cs order ks']) (simp_all add: g' resetBoard_def)
qed

lemma startRound_succeeds:
  assumes "\<forall>k m. length (HMAC k m) = 32" and "\<not> roundActive g"
    and "clampInputs f g = (bet, g1)" and "\<not> jlt (balance g1) bet"
  shows "\<exists>g'. startRound HMAC SHA f a b g = Inr g' \<and> roundActive g'
            \<and> balance g' = jsub (balance g) bet"
proof -
  define cs where "cs = (if length (trim (clientSeedEl f)) > 0 then trim (clientSeedEl f)
                    else randomHex a)"
  obtain p ks' where
    "shuffleDeterministic HMAC 25 (Keystream (randomHex b) cs (nonce g1 + 1)) = Inr (map Some p, ks')"
    using shuffleDeterministic_perm [OF assms(1), of 25 "Keystream (randomHex b) cs (nonce g1 + 1)"]
    by auto
  then show ?thesis
    using assms(2-4) clampInputs_fields(4) [OF assms(3)]
    by (simp add: startRound_def Let_def cs_def resetBoard_def)
qed

subsection \<open>The shuffle is a permutation\<close>

lemma toy_hmac_length: "\<forall>k m. length (toy_hmac k m) = 32"
  by (simp add: toy_hmac_def)

text \<open>
  Claim C2.  Whatever state the keystream object is in, and for every MAC function with
  32-byte output, \<open>shuffleDeterministic(25, keystream)\<close> returns an array holding a
  permutation \<open>p\<close> of 0..24; for every mine count \<open>m\<close> from 1 to 24 the set built from the
  first \<open>m\<close> elements has exactly \<open>m\<close> elements, all between 0 and 24.  The mine set of
  every round that \<open>startRound\<close> starts is such a set, for its (clamped) mine count.
\<close>

theorem shuffle_permutation_and_mine_set:
  assumes "\<forall>k m. length (HMAC k m) = 32"
  shows "(\<exists>p ks'. shuffleDeterministic HMAC 25 ks = Inr (map Some p, ks')
            \<and> mset p = mset [0..<25]
            \<and> (\<forall>m. 1 \<le> m \<and> m \<le> 24 \<longrightarrow>
                  mineIndices (map Some p) m = set (take (nat m) p)
                  \<and> card (mineIndices (map Some p) m) = nat m
                  \<and> mineIndices (map Some p) m \<subseteq> {0..24}))
       \<and> (\<forall>SHA f a b g g'.
             \<not> roundActive g \<and> startRound HMAC SHA f a b g = Inr g' \<and> roundActive g' \<longrightarrow>
               1 \<le> minesCount g' \<and> minesCount g' \<le> 24
               \<and> card (minesSet g') = nat (minesCount g') \<and> minesSet g' \<subseteq> {0..24})"
proof
  obtain p ks' where p: "shuffleDeterministic HMAC 25 ks = Inr (map Some p, ks')"
    "mset p = mset [0..<25]"
    using shuffleDeterministic_perm [OF assms, of 25 ks] by auto
  have M: "\<forall>m. 1 \<le> m \<and> m \<le> 24 \<longrightarrow>
                  mineIndices (map Some p) m = set (take (nat m) p)
                  \<and> card (mineIndices (map Some p) m) = nat m
                  \<and> mineIndices (map Some p) m \<subseteq> {0..24}"
  proof (intro allI impI)
    fix m :: int
    assume "1 \<le> m \<and> m \<le> 24"
    then show "mineIndices (map Some p) m = set (take (nat m) p)
          \<and> card (mineIndices (map Some p) m) = nat m
          \<and> mineIndices (map Some p) m \<subseteq> {0..24}"
      using mines_of_permutation [OF p(2), of m] by (simp add: mineIndices_take)
  qed
  show "\<exists>p ks'. shuffleDeterministic HMAC 25 ks = Inr (map Some p, ks')
            \<and> mset p = mset [0..<25]
            \<and> (\<forall>m. 1 \<le> m \<and> m \<le> 24 \<longrightarrow>
                  mineIndices (map Some p) m = set (take (nat m) p)
                  \<and> card (mineIndices (map Some p) m) = nat m
                  \<and> mineIndices (map Some p) m \<subseteq> {0..24})"
    by (intro exI conjI) (rule p(1), rule p(2), rule M)
next
  show "\<forall>SHA f a b g g'.
             \<not> roundActive g \<and> startRound HMAC SHA f a b g = Inr g' \<and> roundActive g' \<longrightarrow>
               1 \<le> minesCount g' \<and> minesCount g' \<le> 24
               \<and> card (minesSet g') = nat (minesCount g') \<and> minesSet g' \<subseteq> {0..24}"
  proof (intro allI impI)
    fix SHA f a b g g'
    assume h: "\<not> roundActive g \<and> startRound HMAC SHA f a b g = Inr g' \<and> roundActive g'"
    from h have h1: "\<not> roundActive g" and h2: "startRound HMAC SHA f a b g = Inr g'"
      and h3: "roundActive g'" by simp_all
    from startRound_started [OF h1 h2 h3] obtain ss cs order ks' where
      st: "shuffleDeterministic HMAC 25 (Keystream ss cs (nonce g')) = Inr (order, ks')"
        "minesSet g' = mineIndices order (minesCount g')"
        "1 \<le> minesCount g'" "minesCount g' \<le> 24"
      by metis
    obtain p ks'' where p: "shuffleDeterministic HMAC 25 (Keystream ss cs (nonce g')) = Inr (map Some p, ks'')"
      "mset p = mset [0..<25]"
      using shuffleDeterministic_perm [OF assms, of 25 "Keystream ss cs (nonce g')"] by auto
    have o: "order = map Some p" using st(1) p(1) by simp
    show "1 \<le> minesCount g' \<and> minesCount g' \<le> 24
               \<and> card (minesSet g') = nat (minesCount g') \<and> minesSet g' \<subseteq> {0..24}"
      using mines_of_permutation [OF p(2) st(3) st(4)] st(3,4) by (simp add: st(2) o)
  qed
qed

theorem shuffle_permutation_witness:
  "(\<forall>k m. length (toy_hmac k m) = 32)
     \<and> (\<exists>p ks'. shuffleDeterministic toy_hmac 25 (Keystream ''5eed'' ''abc'' 1) = Inr (map Some p, ks')
           \<and> mset p = mset [0..<25]
           \<and> card (mineIndices (map Some p) 3) = 3
           \<and> mineIndices (map Some p) 3 \<subseteq> {0..24})"
proof -
  note T = shuffle_permutation_and_mine_set [OF toy_hmac_length, of "Keystream ''5eed'' ''abc'' 1",
      THEN conjunct1]
  then obtain p ks' where
    a: "shuffleDeterministic toy_hmac 25 (Keystream ''5eed'' ''abc'' 1) = Inr (map Some p, ks')"
    and b: "mset p = mset [0..<25]"
    and c: "\<forall>m. 1 \<le> m \<and> m \<le> 24 \<longrightarrow>
                  mineIndices (map Some p) m = set (take (nat m) p)
                  \<and> card (mineIndices (map Some p) m) = nat m
                  \<and> mineIndices (map Some p) m \<subseteq> {0..24}"
    by (elim exE conjE)
  have "1 \<le> (3::int) \<and> (3::int) \<le> 24" by simp
  with c have d: "card (mineIndices (map Some p) 3) = nat 3 \<and> mineIndices (map Some p) 3 \<subseteq> {0..24}"
    by (elim allE [of _ 3]) (elim impE, assumption, elim conjE, intro conjI, assumption+)
  have "shuffleDeterministic toy_hmac 25 (Keystream ''5eed'' ''abc'' 1) = Inr (map Some p, ks')
           \<and> mset p = mset [0..<25]
           \<and> card (mineIndices (map Some p) 3) = 3
           \<and> mineIndices (map Some p) 3 \<subseteq> {0..24}"
    using a b d by simp
  then have "\<exists>p ks'. shuffleDeterministic toy_hmac 25 (Keystream ''5eed'' ''abc'' 1) = Inr (map Some p, ks')
           \<and> mset p = mset [0..<25]
           \<and> card (mineIndices (map Some p) 3) = 3
           \<and> mineIndices (map Some p) 3 \<subseteq> {0..24}"
    by (intro exI)
  then show ?thesis using toy_hmac_length by (intro conjI)
qed

subsection \<open>The keystream and the shuffle against the contract\<close>

lemma spec_float_value:
  assumes "\<forall>k m. length (HMAC k m) = 32"
  shows "\<exists>v<4294967296. spec_float HMAC s c n t = of_nat v / 4294967296
           \<and> jdiv (Fin (of_nat v)) (Fin 4294967296) = Fin (spec_float HMAC s c n t)"
proof -
  let ?b = "drop (4 * (t mod 8)) (mac_block HMAC s c n (t div 8))"
  have "t mod 8 < 8" by simp
  then have "4 * (t mod 8) \<le> 28" by simp
  moreover have "length (mac_block HMAC s c n (t div 8)) = 32" using assms by (simp add: mac_block_def)
  ultimately have l: "4 \<le> length ?b" by simp
  have v: "getUint32 ?b < 4294967296" by (rule getUint32_less)
  have "spec_float HMAC s c n t = of_nat (getUint32 ?b) / 4294967296"
    by (simp add: spec_float_def getUint32_be_u32 [OF l])
  then show ?thesis using v nextFloat_division_exact [OF v] by auto
qed

text \<open>
  Claim C7.  From a fresh keystream object, call number \<open>t\<close> of \<open>nextFloat\<close> returns
  the float the contract describes: the four bytes at offset \<open>4 * (t mod 8)\<close> of MAC block
  \<open>t div 8\<close>, read as a big-endian 32-bit integer and divided by \<open>2^32\<close>, a number in
  \<open>[0, 1)\<close> (the binary64 division and, below \<open>2^21\<close>, the product with \<open>i + 1\<close> are
  exact).  In any state, \<open>nextFloat\<close> takes a new block, and counts it, exactly when fewer
  than four bytes are left.  \<open>shuffleDeterministic\<close> on a fresh keystream returns what
  the contract's Fisher-Yates gives on these floats: for \<open>i\<close> from \<open>n - 1\<close> down to 1,
  \<open>j = floor (f * (i + 1))\<close>, swap positions \<open>i\<close> and \<open>j\<close>.
\<close>

theorem keystream_and_shuffle_follow_contract:
  assumes "\<forall>k m. length (HMAC k m) = 32"
  shows "Keystream s c n = keystream_after HMAC s c n 0
       \<and> (\<forall>t. nextFloat HMAC (keystream_after HMAC s c n t)
                 = Inr (spec_float HMAC s c n t, keystream_after HMAC s c n (Suc t)))
       \<and> (\<forall>t. 0 \<le> spec_float HMAC s c n t \<and> spec_float HMAC s c n t < 1)
       \<and> (\<forall>t. \<exists>v<4294967296. spec_float HMAC s c n t = of_nat v / 4294967296
                 \<and> jdiv (Fin (of_nat v)) (Fin 4294967296) = Fin (spec_float HMAC s c n t))
       \<and> (\<forall>t i. i < 2097152 \<longrightarrow>
                 jmul (Fin (spec_float HMAC s c n t)) (Fin (of_nat (i + 1)))
                   = Fin (spec_float HMAC s c n t * of_nat (i + 1)))
       \<and> (\<forall>ks. nextFloat HMAC ks =
             (let short = length (buffer ks) < 4;
                  b = (if short
                       then mac_block HMAC (ks_serverSeed ks) (ks_clientSeed ks) (ks_nonce ks) (counter ks)
                       else buffer ks);
                  c = (if short then counter ks + 1 else counter ks)
              in if length b < 4 then Inl RangeError
                 else Inr (of_nat (be_u32 (take 4 b)) / 2 ^ 32, ks\<lparr>counter := c, buffer := drop 4 b\<rparr>)))
       \<and> (\<forall>m. shuffleDeterministic HMAC m (Keystream s c n)
                 = Inr (map Some (fisher_yates (spec_float HMAC s c n) m),
                        keystream_after HMAC s c n (m - 1)))"
proof (intro conjI allI impI)
  show "Keystream s c n = keystream_after HMAC s c n 0" by (rule Keystream_after_0)
  show "nextFloat HMAC (keystream_after HMAC s c n t)
          = Inr (spec_float HMAC s c n t, keystream_after HMAC s c n (Suc t))" for t
    by (rule nextFloat_after [OF assms])
  show "0 \<le> spec_float HMAC s c n t" "spec_float HMAC s c n t < 1" for t
    using spec_float_range [OF assms] by blast+
  show "\<exists>v<4294967296. spec_float HMAC s c n t = of_nat v / 4294967296
           \<and> jdiv (Fin (of_nat v)) (Fin 4294967296) = Fin (spec_float HMAC s c n t)" for t
    by (rule spec_float_value [OF assms])
  show "jmul (Fin (spec_float HMAC s c n t)) (Fin (of_nat (i + 1)))
          = Fin (spec_float HMAC s c n t * of_nat (i + 1))" if "i < 2097152" for t i
  proof -
    obtain v where v: "v < 4294967296" "spec_float HMAC s c n t = of_nat v / 4294967296"
      using spec_float_value [OF assms] by blast
    show ?thesis unfolding v(2) by (rule shuffle_product_exact [OF v(1) that])
  qed
  show "nextFloat HMAC ks =
             (let short = length (buffer ks) < 4;
                  b = (if short
                       then mac_block HMAC (ks_serverSeed ks) (ks_clientSeed ks) (ks_nonce ks) (counter ks)
                       else buffer ks);
                  c = (if short then counter ks + 1 else counter ks)
              in if length b < 4 then Inl RangeError
                 else Inr (of_nat (be_u32 (take 4 b)) / 2 ^ 32, ks\<lparr>counter := c, buffer := drop 4 b\<rparr>))" for ks
    by (rule nextFloat_eq)
  show "shuffleDeterministic HMAC m (Keystream s c n)
          = Inr (map Some (fisher_yates (spec_float HMAC s c n) m), keystream_after HMAC s c n (m - 1))" for m
  proof (cases "m = 0")
    case True
    then show ?thesis
      by (simp add: shuffleDeterministic_def fisher_yates_def Keystream_after_0 [of s c n HMAC])
  next
    case False
    then have "m - 1 < length [0..<m]" by simp
    from shuffle_loop_refines [OF assms this, of s c n 0] show ?thesis
      by (simp add: shuffleDeterministic_def fisher_yates_def Keystream_after_0 [of s c n HMAC])
  qed
qed

lemma replicate4: "replicate 4 x = [x, x, x, x]"
  by (simp add: numeral_eq_Suc)

lemma showNat_digit: "n < 10 \<Longrightarrow> showNat n = [hexdigit n]"
  by (simp add: showNat.simps)

theorem keystream_contract_witness:
  "(\<forall>k m. length (toy_hmac k m) = 32)
     \<and> nextFloat toy_hmac (Keystream ''5eed'' ''abc'' 1)
         = Inr (spec_float toy_hmac ''5eed'' ''abc'' 1 0, keystream_after toy_hmac ''5eed'' ''abc'' 1 1)
     \<and> spec_float toy_hmac ''5eed'' ''abc'' 1 0 = 185273099 / 4294967296
     \<and> jmul (Fin (spec_float toy_hmac ''5eed'' ''abc'' 1 0)) (Fin (of_nat (24 + 1)))
         = Fin (spec_float toy_hmac ''5eed'' ''abc'' 1 0 * of_nat (24 + 1))
     \<and> shuffleDeterministic toy_hmac 25 (Keystream ''5eed'' ''abc'' 1)
         = Inr (map Some (fisher_yates (spec_float toy_hmac ''5eed'' ''abc'' 1) 25),
                keystream_after toy_hmac ''5eed'' ''abc'' 1 24)"
proof -
  note K = keystream_and_shuffle_follow_contract [OF toy_hmac_length, of "''5eed''" "''abc''" 1]
  have k0: "Keystream ''5eed'' ''abc'' 1 = keystream_after toy_hmac ''5eed'' ''abc'' 1 0"
    by (rule K [THEN conjunct1])
  have nf: "nextFloat toy_hmac (keystream_after toy_hmac ''5eed'' ''abc'' 1 0)
      = Inr (spec_float toy_hmac ''5eed'' ''abc'' 1 0, keystream_after toy_hmac ''5eed'' ''abc'' 1 (Suc 0))"
    by (rule K [THEN conjunct2, THEN conjunct1, rule_format])
  have sh: "shuffleDeterministic toy_hmac 25 (Keystream ''5eed'' ''abc'' 1)
      = Inr (map Some (fisher_yates (spec_float toy_hmac ''5eed'' ''abc'' 1) 25),
             keystream_after toy_hmac ''5eed'' ''abc'' 1 (25 - 1))"
    by (rule K [THEN conjunct2, THEN conjunct2, THEN conjunct2, THEN conjunct2, THEN conjunct2,
          THEN conjunct2, rule_format])
  have "(24::nat) < 2097152" by simp
  then have ex: "jmul (Fin (spec_float toy_hmac ''5eed'' ''abc'' 1 0)) (Fin (of_nat (24 + 1)))
         = Fin (spec_float toy_hmac ''5eed'' ''abc'' 1 0 * of_nat (24 + 1))"
    by (rule K [THEN conjunct2, THEN conjunct2, THEN conjunct2, THEN conjunct2, THEN conjunct1,
          rule_format])
  have v: "spec_float toy_hmac ''5eed'' ''abc'' 1 0 = 185273099 / 4294967296"
    by (simp add: spec_float_def mac_block_def toy_hmac_def be_u32_def enc_encode_def
        showNat_digit replicate4)
  show ?thesis
  proof (intro conjI)
    show "\<forall>k m. length (toy_hmac k m) = 32" by (rule toy_hmac_length)
    show "nextFloat toy_hmac (Keystream ''5eed'' ''abc'' 1)
         = Inr (spec_float toy_hmac ''5eed'' ''abc'' 1 0, keystream_after toy_hmac ''5eed'' ''abc'' 1 1)"
      unfolding k0 using nf by simp
    show "spec_float toy_hmac ''5eed'' ''abc'' 1 0 = 185273099 / 4294967296" by (rule v)
    show "jmul (Fin (spec_float toy_hmac ''5eed'' ''abc'' 1 0)) (Fin (of_nat (24 + 1)))
         = Fin (spec_float toy_hmac ''5eed'' ''abc'' 1 0 * of_nat (24 + 1))" by (rule ex)
    show "shuffleDeterministic toy_hmac 25 (Keystream ''5eed'' ''abc'' 1)
         = Inr (map Some (fisher_yates (spec_float toy_hmac ''5eed'' ''abc'' 1) 25),
                keystream_after toy_hmac ''5eed'' ''abc'' 1 24)"
      using sh by simp
  qed
qed

subsection \<open>Determinism of the derivation\<close>

text \<open>
  Claim C1.  Take any two rounds started by \<open>startRound\<close>, from any two prior states,
  forms and random bytes.  When they end up with the same server seed, client seed and
  nonce, both hold the mine set derived from one and the same permutation, the one
  \<open>shuffleDeterministic(25, Keystream(serverSeed, clientSeed, nonce))\<close> returns, and
  the keystream objects are left in the same state; with the same mine count the mine
  sets are equal.  Nothing else of the state or the form enters the derivation.  (The
  platform's HMAC is a function of its key and message.)
\<close>

theorem derivation_is_deterministic:
  assumes "\<not> roundActive g1" and "startRound HMAC SHA f1 a1 b1 g1 = Inr h1" and "roundActive h1"
    and "\<not> roundActive g2" and "startRound HMAC SHA f2 a2 b2 g2 = Inr h2" and "roundActive h2"
    and "serverSeed h1 = serverSeed h2" and "clientSeed h1 = clientSeed h2"
    and "nonce h1 = nonce h2"
  shows "\<exists>ss cs order ks'.
           serverSeed h1 = Some ss \<and> clientSeed h1 = Some cs
           \<and> shuffleDeterministic HMAC 25 (Keystream ss cs (nonce h1)) = Inr (order, ks')
           \<and> minesSet h1 = mineIndices order (minesCount h1)
           \<and> minesSet h2 = mineIndices order (minesCount h2)
           \<and> keystream h1 = Some ks' \<and> keystream h2 = Some ks'
           \<and> (minesCount h1 = minesCount h2 \<longrightarrow> minesSet h1 = minesSet h2)"
proof -
  from startRound_started [OF assms(1-3)] obtain ss cs order ks' where
    r1: "serverSeed h1 = Some ss" "clientSeed h1 = Some cs"
      "shuffleDeterministic HMAC 25 (Keystream ss cs (nonce h1)) = Inr (order, ks')"
      "minesSet h1 = mineIndices order (minesCount h1)" "keystream h1 = Some ks'"
    by metis
  from startRound_started [OF assms(4-6)] obtain ss2 cs2 order2 ks2 where
    r2: "serverSeed h2 = Some ss2" "clientSeed h2 = Some cs2"
      "shuffleDeterministic HMAC 25 (Keystream ss2 cs2 (nonce h2)) = Inr (order2, ks2)"
      "minesSet h2 = mineIndices order2 (minesCount h2)" "keystream h2 = Some ks2"
    by metis
  have e: "ss2 = ss" "cs2 = cs" using assms(7,8) r1(1,2) r2(1,2) by simp_all
  have o: "order2 = order" "ks2 = ks'" using r1(3) r2(3) assms(9) by (simp_all add: e)
  have m2: "minesSet h2 = mineIndices order (minesCount h2)" using r2(4) by (simp add: o)
  have k2: "keystream h2 = Some ks'" using r2(5) by (simp add: o)
  have eq: "minesCount h1 = minesCount h2 \<longrightarrow> minesSet h1 = minesSet h2"
    using r1(4) m2 by simp
  show ?thesis
    by (intro exI conjI) (rule r1(1), rule r1(2), rule r1(3), rule r1(4), rule m2, rule r1(5),
        rule k2, rule eq)
qed

lemma fl64_10: "fl64 10 = Fin 10"
  using fl64_of_int [of 10] by simp

lemma fl64_20: "fl64 20 = Fin 20"
  using fl64_of_int [of 20] by simp

lemma clampInputs_demo:
  "clampInputs demo_form g = (Fin 10, g\<lparr>minesCount := 3, houseEdgePct := Fin 3\<rparr>)"
proof -
  have "\<lfloor>(1000::rat) + 1 / 2\<rfloor> = 1000" by linarith
  then have "toFixed2 10 = Fin 10" by (simp add: toFixed2_def fl64_10)
  then show ?thesis by (simp add: clampInputs_def demo_form_def Let_def jmax_def jmin_def)
qed

lemma clampInputs_demo20:
  "clampInputs (demo_form\<lparr>betEl := Fin 20\<rparr>) g = (Fin 20, g\<lparr>minesCount := 3, houseEdgePct := Fin 3\<rparr>)"
proof -
  have "\<lfloor>(2000::rat) + 1 / 2\<rfloor> = 2000" by linarith
  then have "toFixed2 20 = Fin 20" by (simp add: toFixed2_def fl64_20)
  then show ?thesis by (simp add: clampInputs_def demo_form_def Let_def jmax_def jmin_def)
qed

theorem derivation_is_deterministic_witness:
  "\<exists>h1 h2. startRound toy_hmac toy_sha demo_form [1, 2] [3, 4] idle_game = Inr h1
      \<and> startRound toy_hmac toy_sha (demo_form\<lparr>betEl := Fin 20\<rparr>) [7] [3, 4]
            (idle_game\<lparr>balance := Fin 500\<rparr>) = Inr h2
      \<and> roundActive h1 \<and> roundActive h2
      \<and> balance h1 = jsub (Fin 1000) (Fin 10) \<and> balance h2 = jsub (Fin 500) (Fin 20)
      \<and> serverSeed h1 = serverSeed h2 \<and> clientSeed h1 = clientSeed h2 \<and> nonce h1 = nonce h2
      \<and> minesSet h1 = minesSet h2"
proof -
  let ?g2 = "idle_game\<lparr>balance := Fin 500\<rparr>"
  let ?f2 = "demo_form\<lparr>betEl := Fin 20\<rparr>"
  have i1: "\<not> roundActive idle_game" and i2: "\<not> roundActive ?g2"
    by (simp_all add: idle_game_def)
  have n1: "\<not> jlt (balance (idle_game\<lparr>minesCount := 3, houseEdgePct := Fin 3\<rparr>)) (Fin 10)"
    and n2: "\<not> jlt (balance (?g2\<lparr>minesCount := 3, houseEdgePct := Fin 3\<rparr>)) (Fin 20)"
    by (simp_all add: idle_game_def)
  from startRound_succeeds [OF toy_hmac_length i1 clampInputs_demo n1, of toy_sha "[1, 2]" "[3, 4]"]
  obtain h1 where h1: "startRound toy_hmac toy_sha demo_form [1, 2] [3, 4] idle_game = Inr h1"
    "roundActive h1" "balance h1 = jsub (balance idle_game) (Fin 10)" by blast
  from startRound_succeeds [OF toy_hmac_length i2 clampInputs_demo20 n2, of toy_sha "[7]" "[3, 4]"]
  obtain h2 where h2: "startRound toy_hmac toy_sha ?f2 [7] [3, 4] ?g2 = Inr h2"
    "roundActive h2" "balance h2 = jsub (balance ?g2) (Fin 20)" by blast
  have s1: "serverSeed h1 = Some (randomHex [3, 4])" "clientSeed h1 = Some ''abc''" "nonce h1 = 1"
    "minesCount h1 = 3"
    using h1(1) clampInputs_demo [of idle_game]
    by (auto simp: startRound_def idle_game_def demo_form_def Let_def resetBoard_def trim_def
        is_space_def split: sum.splits if_splits)
  have s2: "serverSeed h2 = Some (randomHex [3, 4])" "clientSeed h2 = Some ''abc''" "nonce h2 = 1"
    "minesCount h2 = 3"
    using h2(1) clampInputs_demo20 [of ?g2]
    by (auto simp: startRound_def idle_game_def demo_form_def Let_def resetBoard_def trim_def
        is_space_def split: sum.splits if_splits)
  have e: "serverSeed h1 = serverSeed h2" "clientSeed h1 = clientSeed h2" "nonce h1 = nonce h2"
    by (simp_all add: s1 s2)
  from derivation_is_deterministic [OF i1 h1(1) h1(2) i2 h2(1) h2(2) e]
  have "minesCount h1 = minesCount h2 \<longrightarrow> minesSet h1 = minesSet h2" by (elim exE conjE)
  then have m: "minesSet h1 = minesSet h2" by (simp add: s1 s2)
  have b1: "balance h1 = jsub (Fin 1000) (Fin 10)" using h1(3) by (simp add: idle_game_def)
  have b2: "balance h2 = jsub (Fin 500) (Fin 20)" using h2(3) by (simp add: idle_game_def)
  show ?thesis
    by (intro exI conjI) (rule h1(1), rule h2(1), rule h1(2), rule h2(2), rule b1, rule b2,
        rule e(1), rule e(2), rule e(3), rule m)
qed

end
